theory Spec2Isabelle
  imports Complex_Main "HOL-Library.AList"
begin

section \<open>The runtime tracker of \<^verbatim>\<open>runtime_tracker.py\<close>\<close>

text \<open>
  Python floats are modelled as \<^typ>\<open>real\<close> (exact arithmetic: no rounding, no NaN, no
  infinity), Python ints as \<^typ>\<open>int\<close>. Every call of \<^verbatim>\<open>time.time()\<close> is an
  argument of the operation that makes it. The calls of \<^verbatim>\<open>psutil\<close> in
  \<^verbatim>\<open>mark_missing\<close> are an argument too: a function from a pid to one of the three
  outcomes the \<^verbatim>\<open>try\<close> block distinguishes. Each operation is a function from the
  state of the tracker to the new state.
\<close>

subsection \<open>RuntimeRecord\<close>

text \<open>
  The dataclass \<^verbatim>\<open>RuntimeRecord\<close>. A Python object has an identity besides its fields:
  two records with equal fields are still two objects. The field \<open>ident\<close> stands for
  that identity; it is given at construction and no assignment changes it.
\<close>

record RuntimeRecord =
  ident :: nat
  pid :: int
  name :: string
  create_time :: real
  predicted :: real
  first_seen :: real
  last_seen :: real
  actual_duration :: "real option"
  completed_at :: "real option"

text \<open>
  \<^verbatim>\<open>elapsed(self, now=None)\<close>: \<^verbatim>\<open>now = now or time.time()\<close> replaces a missing and also
  a zero argument by the clock reading.
\<close>

definition elapsed :: "RuntimeRecord \<Rightarrow> real option \<Rightarrow> real \<Rightarrow> real" where
  "elapsed r now_arg clock =
     (case actual_duration r of
        Some d \<Rightarrow> d
      | None \<Rightarrow>
          (let now = (case now_arg of
                        None \<Rightarrow> clock
                      | Some n \<Rightarrow> if n = 0 then clock else n)
           in max (now - create_time r) 0))"

definition status :: "RuntimeRecord \<Rightarrow> string" where
  "status r = (if actual_duration r \<noteq> None then ''completed'' else ''running'')"

subsection \<open>ProcessRuntimeTracker\<close>

text \<open>
  \<^verbatim>\<open>_active\<close> is a dict, which keeps its keys in insertion order: an association list,
  where \<^const>\<open>AList.update\<close> is the assignment \<^verbatim>\<open>d[k] = v\<close> (in place for a key that is
  present, at the end for a new one) and \<^const>\<open>AList.delete\<close> is \<^verbatim>\<open>d.pop(k, None)\<close>.
  \<^verbatim>\<open>_completed\<close> is a \<^verbatim>\<open>deque\<close> with \<^verbatim>\<open>maxlen\<close>, oldest entry first.
  \<open>next_ident\<close> is the identity the next constructed record gets.
\<close>

record tracker =
  active :: "(int \<times> RuntimeRecord) list"
  completed :: "RuntimeRecord list"
  maxlen :: nat
  next_ident :: nat

datatype error = ValueError

text \<open>
  \<^verbatim>\<open>__init__(self, completed_max=20)\<close>. \<^verbatim>\<open>deque(maxlen=n)\<close> raises \<^verbatim>\<open>ValueError\<close>
  for a negative \<^verbatim>\<open>n\<close>.
\<close>

definition tracker_init :: "int \<Rightarrow> error + tracker" where
  "tracker_init completed_max =
     (if completed_max < 0 then Inl ValueError
      else Inr \<lparr>active = [], completed = [], maxlen = nat completed_max, next_ident = 0\<rparr>)"

text \<open>
  \<^verbatim>\<open>deque.append\<close>: the item is added at the right end, then one item is dropped from the
  left end when the length exceeds \<^verbatim>\<open>maxlen\<close>.
\<close>

definition deque_append :: "nat \<Rightarrow> 'a list \<Rightarrow> 'a \<Rightarrow> 'a list" where
  "deque_append n xs x = (let ys = xs @ [x] in if n < length ys then tl ys else ys)"

definition replace_record ::
  "tracker \<Rightarrow> int \<Rightarrow> string \<Rightarrow> real \<Rightarrow> real \<Rightarrow> real \<Rightarrow> RuntimeRecord \<times> tracker" where
  "replace_record t p nm ct pr now =
     (let r = \<lparr>ident = next_ident t, pid = p, name = nm, create_time = ct, predicted = pr,
                first_seen = now, last_seen = now, actual_duration = None, completed_at = None\<rparr>
      in (r, t\<lparr>active := AList.update p r (active t), next_ident := Suc (next_ident t)\<rparr>))"

definition update_running ::
  "tracker \<Rightarrow> int \<Rightarrow> string \<Rightarrow> real \<Rightarrow> real \<Rightarrow> real \<Rightarrow> RuntimeRecord \<times> tracker" where
  "update_running t p nm ct pr now =
     (case map_of (active t) p of
        None \<Rightarrow> replace_record t p nm ct pr now
      | Some r \<Rightarrow>
          if \<bar>create_time r - ct\<bar> > 1 then replace_record t p nm ct pr now
          else (let r' = r\<lparr>name := nm, predicted := pr, last_seen := now\<rparr>
                in (r', t\<lparr>active := AList.update p r' (active t)\<rparr>)))"

text \<open>
  The outcome of the \<^verbatim>\<open>try\<close> block of \<^verbatim>\<open>mark_missing\<close> for one pid:
  \<^verbatim>\<open>proc.create_time()\<close> returned a value, \<^verbatim>\<open>NoSuchProcess\<close> was raised, or
  \<^verbatim>\<open>AccessDenied\<close> was raised. These are the outcomes the code handles; an exception
  of another class is not modelled. \<open>should_close\<close> is the flag of that name after the
  block, with the two \<^verbatim>\<open>continue\<close> branches as \<open>False\<close>.
\<close>

datatype liveness = StillAlive real | Gone | Indeterminate

definition should_close :: "liveness \<Rightarrow> RuntimeRecord \<Rightarrow> bool" where
  "should_close l r =
     (case l of
        StillAlive ct \<Rightarrow> \<bar>ct - create_time r\<bar> > 1
      | Gone \<Rightarrow> True
      | Indeterminate \<Rightarrow> False)"

definition close_record :: "real \<Rightarrow> RuntimeRecord \<Rightarrow> RuntimeRecord" where
  "close_record now r =
     r\<lparr>completed_at := Some now, actual_duration := Some (max (now - create_time r) 0)\<rparr>"

text \<open>One iteration of the loop of \<^verbatim>\<open>mark_missing\<close>, for the key \<open>p\<close>.\<close>

definition mark_missing_step ::
  "int list \<Rightarrow> (int \<Rightarrow> liveness) \<Rightarrow> real \<Rightarrow> tracker \<Rightarrow> int \<Rightarrow> tracker" where
  "mark_missing_step active_pids check now t p =
     (if p \<in> set active_pids then t
      else case map_of (active t) p of
        None \<Rightarrow> t
      | Some r \<Rightarrow>
          if should_close (check p) r then
            (case map_of (active t) p of
               None \<Rightarrow> t
             | Some r' \<Rightarrow>
                 t\<lparr>active := AList.delete p (active t),
                   completed := deque_append (maxlen t) (completed t) (close_record now r')\<rparr>)
          else t)"

text \<open>The loop runs over a snapshot of the keys, \<^verbatim>\<open>list(self._active.keys())\<close>.\<close>

definition mark_missing :: "tracker \<Rightarrow> int list \<Rightarrow> (int \<Rightarrow> liveness) \<Rightarrow> real \<Rightarrow> tracker" where
  "mark_missing t active_pids check now =
     foldl (mark_missing_step active_pids check now) t (map fst (active t))"

text \<open>
  The two lookups. A \<^verbatim>\<open>RuntimeRecord\<close> object is always truthy, so \<^verbatim>\<open>if record:\<close> asks
  whether the key is present. \<open>clock\<close> is the reading \<^verbatim>\<open>elapsed\<close> takes.
\<close>

definition current_elapsed :: "tracker \<Rightarrow> int \<Rightarrow> real \<Rightarrow> real option" where
  "current_elapsed t p clock =
     (case map_of (active t) p of
        Some r \<Rightarrow> Some (elapsed r None clock)
      | None \<Rightarrow>
          (case find (\<lambda>r. pid r = p) (completed t) of
             Some r \<Rightarrow> actual_duration r
           | None \<Rightarrow> None))"

definition status_for :: "tracker \<Rightarrow> int \<Rightarrow> string" where
  "status_for t p =
     (case map_of (active t) p of
        Some r \<Rightarrow> status r
      | None \<Rightarrow>
          (case find (\<lambda>r. pid r = p) (completed t) of
             Some r \<Rightarrow> status r
           | None \<Rightarrow> ''unknown''))"

definition recent_completions :: "tracker \<Rightarrow> RuntimeRecord list" where
  "recent_completions t = completed t"

subsection \<open>Sequences of calls\<close>

text \<open>
  A caller drives the tracker by a sequence of calls of its two mutating operations.
  \<open>Observe p nm ct pr now\<close> is \<^verbatim>\<open>update_running(p, nm, ct, pr)\<close> at clock reading
  \<open>now\<close>; \<open>Reconcile pids check now\<close> is \<^verbatim>\<open>mark_missing(pids)\<close> at clock reading
  \<open>now\<close>, with \<open>check\<close> what the process table answers during the call.
\<close>

datatype call =
  Observe int string real real real
| Reconcile "int list" "int \<Rightarrow> liveness" real

fun step :: "tracker \<Rightarrow> call \<Rightarrow> tracker" where
  "step t (Observe p nm ct pr now) = snd (update_running t p nm ct pr now)"
| "step t (Reconcile pids check now) = mark_missing t pids check now"

definition run :: "call list \<Rightarrow> tracker \<Rightarrow> tracker" where
  "run cs t = foldl step t cs"

subsection \<open>Well-formed states and the records a call closes\<close>

text \<open>
  \<open>records t\<close> are the records the tracker holds. \<open>wf t\<close> collects what the dict and
  the deque guarantee by construction and what the operations maintain: the keys of the
  dict are unique, each entry is keyed by its record's pid, an active record carries no
  completion, a history record carries both completion fields, the deque respects its
  \<^verbatim>\<open>maxlen\<close>, and the records are pairwise different objects, all constructed already.
  A new tracker is well-formed and every call keeps a tracker well-formed (\<open>wf_init\<close>,
  \<open>wf_step\<close>, \<open>wf_run\<close> below), so \<open>wf\<close> holds in every state a caller can reach.
\<close>

definition records :: "tracker \<Rightarrow> RuntimeRecord list" where
  "records t = map snd (active t) @ completed t"

definition wf :: "tracker \<Rightarrow> bool" where
  "wf t \<longleftrightarrow>
     distinct (map fst (active t)) \<and>
     (\<forall>(p, r) \<in> set (active t). pid r = p \<and> actual_duration r = None \<and> completed_at r = None) \<and>
     (\<forall>r \<in> set (completed t). actual_duration r \<noteq> None \<and> completed_at r \<noteq> None) \<and>
     length (completed t) \<le> maxlen t \<and>
     distinct (map ident (records t)) \<and>
     (\<forall>r \<in> set (records t). ident r < next_ident t)"

text \<open>
  \<open>closes pids check (p, r)\<close>: the entry is one that a \<^verbatim>\<open>mark_missing(pids)\<close> closes.
  \<open>closed_now\<close> lists the closed records of one call, in the order of the loop;
  \<open>closed_log\<close> those of a sequence of calls.
\<close>

definition closes :: "int list \<Rightarrow> (int \<Rightarrow> liveness) \<Rightarrow> int \<times> RuntimeRecord \<Rightarrow> bool" where
  "closes pids check = (\<lambda>(p, r). p \<notin> set pids \<and> should_close (check p) r)"

definition closed_now :: "tracker \<Rightarrow> int list \<Rightarrow> (int \<Rightarrow> liveness) \<Rightarrow> real \<Rightarrow> RuntimeRecord list" where
  "closed_now t pids check now =
     map (close_record now \<circ> snd) (filter (closes pids check) (active t))"

fun closed_log :: "call list \<Rightarrow> tracker \<Rightarrow> RuntimeRecord list" where
  "closed_log [] t = []"
| "closed_log (Observe p nm ct pr now # cs) t =
     closed_log cs (step t (Observe p nm ct pr now))"
| "closed_log (Reconcile pids check now # cs) t =
     closed_now t pids check now @ closed_log cs (step t (Reconcile pids check now))"

text \<open>Shapes of calls: an observation of pid \<open>p\<close>; a reconciliation that misses \<open>p\<close> and
  gets no answer about it.\<close>

fun observes :: "int \<Rightarrow> call \<Rightarrow> bool" where
  "observes p (Observe q nm ct pr now) = (q = p)"
| "observes p (Reconcile pids check now) = False"

fun indeterminate_for :: "int \<Rightarrow> call \<Rightarrow> bool" where
  "indeterminate_for p (Observe q nm ct pr now) = False"
| "indeterminate_for p (Reconcile pids check now) = (p \<notin> set pids \<and> check p = Indeterminate)"

text \<open>An observation of pid \<open>p\<close> whose creation time is within the tolerance of \<open>c0\<close>.\<close>

fun same_identity :: "int \<Rightarrow> real \<Rightarrow> call \<Rightarrow> bool" where
  "same_identity p c0 (Observe q nm ct pr now) = (q = p \<and> \<not> \<bar>c0 - ct\<bar> > 1)"
| "same_identity p c0 (Reconcile pids check now) = False"

subsection \<open>Example states\<close>

text \<open>The record and the tracker after \<^verbatim>\<open>update_running(99, "build", 1000.0, 12.5)\<close> on a
  new tracker, at clock reading 1001.\<close>

definition ex_rec :: RuntimeRecord where
  "ex_rec = \<lparr>ident = 0, pid = 99, name = ''build'', create_time = 1000, predicted = 25 / 2,
             first_seen = 1001, last_seen = 1001, actual_duration = None, completed_at = None\<rparr>"

definition ex_tracker :: tracker where
  "ex_tracker = \<lparr>active = [(99, ex_rec)], completed = [], maxlen = 20, next_ident = 1\<rparr>"

text \<open>A second active record, for pid 7 with creation time 100; the record that replaces
  it when pid 7 is observed with creation time 500 at clock reading 1020.\<close>

definition ex_rec7 :: RuntimeRecord where
  "ex_rec7 = \<lparr>ident = 1, pid = 7, name = ''idle'', create_time = 100, predicted = 3,
              first_seen = 1001, last_seen = 1001, actual_duration = None, completed_at = None\<rparr>"

definition ex_tracker2 :: tracker where
  "ex_tracker2 =
     \<lparr>active = [(99, ex_rec), (7, ex_rec7)], completed = [], maxlen = 20, next_ident = 2\<rparr>"

text \<open>A tracker whose history holds an earlier incarnation of the active pid 99 and two
  completions of pid 7.\<close>

definition ex_done :: "nat \<Rightarrow> int \<Rightarrow> real \<Rightarrow> RuntimeRecord" where
  "ex_done i p d = \<lparr>ident = i, pid = p, name = ''job'', create_time = 100, predicted = 3,
       first_seen = 101, last_seen = 101, actual_duration = Some d, completed_at = Some (100 + d)\<rparr>"

definition ex_tracker3 :: tracker where
  "ex_tracker3 =
     \<lparr>active = [(99, ex_rec)],
      completed = [ex_done 1 99 5, ex_done 2 7 11, ex_done 3 7 13], maxlen = 20, next_ident = 4\<rparr>"

text \<open>New trackers of capacity 20 and 2, and sequences of calls on them: one cycle that
  observes pid 99 and then finds it gone, a later cycle for a new process with the same
  pid, two further observations of the running pid 99, and three (then four) processes
  that are observed and, but for the last, found gone one after the other.\<close>

definition ex_new :: tracker where
  "ex_new = \<lparr>active = [], completed = [], maxlen = 20, next_ident = 0\<rparr>"

definition ex_rec7_new :: RuntimeRecord where
  "ex_rec7_new = \<lparr>ident = 2, pid = 7, name = ''idle'', create_time = 500, predicted = 3,
              first_seen = 1020, last_seen = 1020, actual_duration = None, completed_at = None\<rparr>"

definition ex_calls :: "call list" where
  "ex_calls = [Observe 99 ''build'' 1000 (25 / 2) 1001, Reconcile [] (\<lambda>q. Gone) 1010]"

definition ex_calls_later :: "call list" where
  "ex_calls_later = [Observe 99 ''build'' 2000 3 2001, Reconcile [] (\<lambda>q. Gone) 2010]"

definition ex_rec_later :: RuntimeRecord where
  "ex_rec_later = \<lparr>ident = 1, pid = 99, name = ''build'', create_time = 2000, predicted = 3,
             first_seen = 2001, last_seen = 2001, actual_duration = None, completed_at = None\<rparr>"

definition ex_observes :: "call list" where
  "ex_observes = [Observe 99 ''build2'' (2001 / 2) 13 1003, Observe 99 ''build3'' (1999 / 2) 14 1005]"

definition ex_new2 :: tracker where
  "ex_new2 = \<lparr>active = [], completed = [], maxlen = 2, next_ident = 0\<rparr>"

definition ex_three :: "call list" where
  "ex_three =
     [Observe 1 ''a'' 10 1 11, Reconcile [] (\<lambda>q. Gone) 15,
      Observe 2 ''b'' 20 1 21, Reconcile [] (\<lambda>q. Gone) 25,
      Observe 3 ''c'' 30 1 31, Reconcile [] (\<lambda>q. Gone) 35]"

definition ex_closed :: "nat \<Rightarrow> int \<Rightarrow> string \<Rightarrow> real \<Rightarrow> RuntimeRecord" where
  "ex_closed i p nm c =
     \<lparr>ident = i, pid = p, name = nm, create_time = c, predicted = 1, first_seen = c + 1,
      last_seen = c + 1, actual_duration = Some 5, completed_at = Some (c + 5)\<rparr>"

definition ex_four :: "call list" where
  "ex_four = ex_three @ [Observe 4 ''d'' 40 1 41]"

section \<open>Auxiliary facts\<close>

lemma map_of_notin_append:
  "k \<notin> fst ` set xs \<Longrightarrow> map_of (xs @ ys) k = map_of ys k"
proof -
  assume "k \<notin> fst ` set xs"
  then have "map_of xs k = None" by (simp add: map_of_eq_None_iff)
  then show ?thesis by (simp add: map_add_def)
qed

lemma delete_notin_append:
  "k \<notin> fst ` set xs \<Longrightarrow> k \<notin> fst ` set ys \<Longrightarrow> AList.delete k (xs @ (k, v) # ys) = xs @ ys"
proof -
  assume a: "k \<notin> fst ` set xs" and b: "k \<notin> fst ` set ys"
  have "AList.delete k (xs @ (k, v) # ys) = AList.delete k xs @ AList.delete k ys"
    by (simp add: AList.delete_eq)
  with a b show ?thesis by simp
qed

lemma mark_missing_loop:
  assumes "distinct (map fst (pre @ xs))"
    and "active s = filter (\<lambda>e. \<not> closes pids check e) pre @ xs"
  shows "foldl (mark_missing_step pids check now) s (map fst xs) =
           s\<lparr>active := filter (\<lambda>e. \<not> closes pids check e) (pre @ xs),
             completed := foldl (deque_append (maxlen s)) (completed s)
                            (map (close_record now \<circ> snd) (filter (closes pids check) xs))\<rparr>"
  using assms
proof (induction xs arbitrary: pre s)
  case Nil
  then show ?case by simp
next
  case (Cons kv xs)
  obtain k r where kv: "kv = (k, r)" by (cases kv)
  let ?A = "filter (\<lambda>e. \<not> closes pids check e) pre"
  from Cons.prems(1) kv have k1: "k \<notin> fst ` set pre" and k2: "k \<notin> fst ` set xs"
    by auto
  then have k3: "k \<notin> fst ` set ?A" by auto
  have look: "map_of (active s) k = Some r"
  proof -
    have "map_of (?A @ kv # xs) k = map_of (kv # xs) k"
      by (rule map_of_notin_append[OF k3])
    then have "map_of (active s) k = map_of (kv # xs) k"
      by (simp only: Cons.prems(2))
    then show ?thesis by (simp add: kv)
  qed
  have d: "distinct (map fst ((pre @ [kv]) @ xs))" using Cons.prems(1) by simp
  show ?case
  proof (cases "closes pids check (k, r)")
    case True
    let ?s1 = "s\<lparr>active := ?A @ xs,
      completed := deque_append (maxlen s) (completed s) (close_record now r)\<rparr>"
    have c: "k \<notin> set pids" "should_close (check k) r"
      using True by (auto simp: closes_def)
    have del: "AList.delete k (active s) = ?A @ xs"
      by (simp only: Cons.prems(2) kv delete_notin_append[OF k3 k2])
    have st: "mark_missing_step pids check now s k = ?s1"
      by (simp add: mark_missing_step_def c look del)
    have a: "active ?s1 = filter (\<lambda>e. \<not> closes pids check e) (pre @ [kv]) @ xs"
      using True kv by simp
    show ?thesis
      using Cons.IH[OF d a] True kv st by simp
  next
    case False
    have st: "mark_missing_step pids check now s k = s"
      using False look by (auto simp: mark_missing_step_def closes_def)
    have a: "active s = filter (\<lambda>e. \<not> closes pids check e) (pre @ [kv]) @ xs"
      using False kv Cons.prems(2) by simp
    show ?thesis
      using Cons.IH[OF d a] False kv st by simp
  qed
qed

lemma mark_missing_eq:
  assumes "distinct (map fst (active t))"
  shows "mark_missing t pids check now =
           t\<lparr>active := filter (\<lambda>e. \<not> closes pids check e) (active t),
             completed := foldl (deque_append (maxlen t)) (completed t)
                            (closed_now t pids check now)\<rparr>"
  unfolding mark_missing_def closed_now_def
  using mark_missing_loop[of "[]" "active t" t pids check now] assms by simp


lemma deque_append_length:
  "length h \<le> n \<Longrightarrow> length (deque_append n h x) \<le> n"
  by (auto simp: deque_append_def Let_def)

lemma deque_fold_drop:
  "length h \<le> n \<Longrightarrow>
     foldl (deque_append n) h xs = drop (length (h @ xs) - n) (h @ xs)"
proof (induction xs arbitrary: h)
  case Nil
  then show ?case by simp
next
  case (Cons x xs)
  let ?h = "deque_append n h x"
  have len: "length ?h \<le> n" using Cons.prems by (rule deque_append_length)
  have "foldl (deque_append n) (h @ [x]) [] = h @ [x]" by simp
  show ?case
  proof (cases "length h = n")
    case True
    then have h: "?h = tl (h @ [x])" by (simp add: deque_append_def)
    have a: "length (?h @ xs) - n = length xs" using True h by simp
    have b: "length (h @ x # xs) - n = Suc (length xs)" using True by simp
    have c: "?h @ xs = tl (h @ x # xs)" using h by (cases h) auto
    have "foldl (deque_append n) h (x # xs) = drop (length (?h @ xs) - n) (?h @ xs)"
      using Cons.IH[OF len] by simp
    also have "\<dots> = drop (length xs) (?h @ xs)" by (simp only: a)
    also have "\<dots> = drop (length xs) (tl (h @ x # xs))" by (simp only: c)
    also have "\<dots> = drop (Suc (length xs)) (h @ x # xs)" by (simp only: drop_Suc)
    finally show ?thesis by (simp only: b)
  next
    case False
    then have h: "?h = h @ [x]" using Cons.prems by (simp add: deque_append_def)
    show ?thesis using Cons.IH[OF len] h by simp
  qed
qed

lemma deque_fold_length:
  "length h \<le> n \<Longrightarrow> length (foldl (deque_append n) h xs) \<le> n"
  by (simp add: deque_fold_drop)

lemma deque_fold_set:
  "length h \<le> n \<Longrightarrow> set (foldl (deque_append n) h xs) \<subseteq> set h \<union> set xs"
  using set_drop_subset[of "length (h @ xs) - n" "h @ xs"] by (simp add: deque_fold_drop)

lemma distinct_split_drop:
  assumes "distinct (map g al @ cs)"
  shows "distinct (map g (filter (\<lambda>e. \<not> P e) al) @ drop k (cs @ map g (filter P al)))"
proof -
  from assms have d: "distinct (map g al)" and c: "distinct cs"
    and dj: "set (map g al) \<inter> set cs = {}" by auto
  from d have inj: "inj_on g (set al)" and dal: "distinct al" by (auto simp: distinct_map)
  have 1: "distinct (map g (filter (\<lambda>e. \<not> P e) al))"
    using d by (simp add: distinct_map_filter)
  have 2: "distinct (cs @ map g (filter P al))"
    using c d dj by (auto simp: distinct_map_filter)
  have 3: "set (map g (filter (\<lambda>e. \<not> P e) al)) \<inter> set (cs @ map g (filter P al)) = {}"
  proof -
    have "g x \<noteq> g y" if "x \<in> set al" "\<not> P x" "y \<in> set al" "P y" for x y
      using inj that by (auto dest: inj_onD)
    then show ?thesis using dj by auto
  qed
  have "set (drop k (cs @ map g (filter P al))) \<subseteq> set (cs @ map g (filter P al))"
    by (rule set_drop_subset)
  with 3 have 4: "set (map g (filter (\<lambda>e. \<not> P e) al)) \<inter> set (drop k (cs @ map g (filter P al))) = {}"
    by blast
  show ?thesis using 1 2 4 by (simp only: distinct_append distinct_drop)
qed


lemma ident_close_record [simp]: "ident (close_record now r) = ident r"
  by (simp add: close_record_def)

lemma pid_close_record [simp]: "pid (close_record now r) = pid r"
  by (simp add: close_record_def)

lemma close_record_set [simp]:
  "actual_duration (close_record now r) = Some (max (now - create_time r) 0)"
  "completed_at (close_record now r) = Some now"
  by (simp_all add: close_record_def)

lemma mark_missing_fields:
  assumes "wf t"
  shows "active (mark_missing t pids check now) =
           filter (\<lambda>e. \<not> closes pids check e) (active t)"
    and "completed (mark_missing t pids check now) =
           drop (length (completed t @ closed_now t pids check now) - maxlen t)
                (completed t @ closed_now t pids check now)"
    and "maxlen (mark_missing t pids check now) = maxlen t"
    and "next_ident (mark_missing t pids check now) = next_ident t"
proof -
  from assms have d: "distinct (map fst (active t))" and l: "length (completed t) \<le> maxlen t"
    by (simp_all add: wf_def)
  note eq = mark_missing_eq[OF d, of pids check now]
  show "active (mark_missing t pids check now) =
           filter (\<lambda>e. \<not> closes pids check e) (active t)"
    by (simp add: eq)
  show "completed (mark_missing t pids check now) =
           drop (length (completed t @ closed_now t pids check now) - maxlen t)
                (completed t @ closed_now t pids check now)"
    using deque_fold_drop[OF l, of "closed_now t pids check now"] by (simp add: eq)
  show "maxlen (mark_missing t pids check now) = maxlen t" by (simp add: eq)
  show "next_ident (mark_missing t pids check now) = next_ident t" by (simp add: eq)
qed

lemma wf_mark_missing:
  assumes "wf t"
  shows "wf (mark_missing t pids check now)"
proof -
  let ?t = "mark_missing t pids check now"
  let ?cl = "closed_now t pids check now"
  let ?k = "length (completed t @ ?cl) - maxlen t"
  note f = mark_missing_fields[OF assms, of pids check now]
  have cset: "set (completed ?t) \<subseteq> set (completed t) \<union> set ?cl"
    using set_drop_subset[of ?k "completed t @ ?cl"] by (simp add: f(2))
  have clsub: "\<forall>r \<in> set ?cl. \<exists>e \<in> set (active t). r = close_record now (snd e)"
    by (force simp: closed_now_def)
  have 1: "distinct (map fst (active ?t))"
    using assms by (simp add: f(1) wf_def distinct_map_filter)
  have 2: "\<forall>(p, r) \<in> set (active ?t). pid r = p \<and> actual_duration r = None \<and> completed_at r = None"
    using assms by (auto simp: f(1) wf_def)
  have 3: "\<forall>r \<in> set (completed ?t). actual_duration r \<noteq> None \<and> completed_at r \<noteq> None"
  proof
    fix r assume "r \<in> set (completed ?t)"
    with cset have "r \<in> set (completed t) \<or> r \<in> set ?cl" by blast
    then show "actual_duration r \<noteq> None \<and> completed_at r \<noteq> None"
      using assms clsub by (auto simp: wf_def)
  qed
  have 4: "length (completed ?t) \<le> maxlen ?t"
    by (simp add: f(2) f(3))
  have idm: "map ident (records ?t) =
      map (ident \<circ> snd) (filter (\<lambda>e. \<not> closes pids check e) (active t)) @
      drop ?k (map ident (completed t) @ map (ident \<circ> snd) (filter (closes pids check) (active t)))"
    by (simp add: records_def f(1) f(2) closed_now_def drop_map comp_def)
  have "distinct (map (ident \<circ> snd) (active t) @ map ident (completed t))"
    using assms by (simp add: wf_def records_def)
  then have 5: "distinct (map ident (records ?t))"
    unfolding idm by (rule distinct_split_drop)
  have 6: "\<forall>r \<in> set (records ?t). ident r < next_ident ?t"
  proof
    fix r assume "r \<in> set (records ?t)"
    then have "r \<in> snd ` set (active t) \<or> r \<in> set (completed t) \<or> r \<in> set ?cl"
      using cset by (auto simp: records_def f(1))
    moreover have b: "\<And>x. x \<in> snd ` set (active t) \<union> set (completed t) \<Longrightarrow> ident x < next_ident t"
      using assms by (simp add: wf_def records_def)
    moreover have "ident r < next_ident t" if "r \<in> set ?cl"
    proof -
      from clsub that obtain e where "e \<in> set (active t)" "r = close_record now (snd e)"
        by blast
      then show ?thesis using b[of "snd e"] by simp
    qed
    ultimately show "ident r < next_ident ?t"
      unfolding f(4) by blast
  qed
  show ?thesis
    unfolding wf_def using 1 2 3 4 5 6 by blast
qed


lemma set_update_subset: "set (AList.update k v al) \<subseteq> insert (k, v) (set al)"
  by (induction al) auto

lemma distinct_update_fresh:
  "distinct (map (g \<circ> snd) al) \<Longrightarrow> g v \<notin> (g \<circ> snd) ` set al \<Longrightarrow>
     distinct (map (g \<circ> snd) (AList.update k v al))"
proof (induction al)
  case Nil
  then show ?case by simp
next
  case (Cons e al)
  have "set (AList.update k v al) \<subseteq> insert (k, v) (set al)" by (rule set_update_subset)
  then have "(g \<circ> snd) ` set (AList.update k v al) \<subseteq> insert (g v) ((g \<circ> snd) ` set al)"
    by auto
  with Cons show ?case by (cases e) auto
qed

lemma map_update_same:
  "map_of al k = Some r \<Longrightarrow> g v = g r \<Longrightarrow> distinct (map fst al) \<Longrightarrow>
     map (g \<circ> snd) (AList.update k v al) = map (g \<circ> snd) al"
proof (induction al)
  case Nil
  then show ?case by simp
next
  case (Cons e al)
  then show ?case by (cases e) (auto split: if_splits)
qed

lemma wf_replace_record:
  assumes "wf t"
  shows "wf (snd (replace_record t p nm ct pr now))"
proof -
  let ?r = "\<lparr>ident = next_ident t, pid = p, name = nm, create_time = ct, predicted = pr,
             first_seen = now, last_seen = now, actual_duration = None, completed_at = None\<rparr>"
  let ?t = "snd (replace_record t p nm ct pr now)"
  have a: "active ?t = AList.update p ?r (active t)" and c: "completed ?t = completed t"
    and m: "maxlen ?t = maxlen t" and n: "next_ident ?t = Suc (next_ident t)"
    by (simp_all add: replace_record_def Let_def)
  have sub: "set (active ?t) \<subseteq> insert (p, ?r) (set (active t))"
    unfolding a by (rule set_update_subset)
  have b: "\<And>x. x \<in> snd ` set (active t) \<union> set (completed t) \<Longrightarrow> ident x < next_ident t"
    using assms by (simp add: wf_def records_def)
  have 1: "distinct (map fst (active ?t))"
    using assms by (simp add: a wf_def distinct_update)
  have 2: "\<forall>(q, r) \<in> set (active ?t). pid r = q \<and> actual_duration r = None \<and> completed_at r = None"
    using assms sub by (auto simp: wf_def)
  have 3: "\<forall>r \<in> set (completed ?t). actual_duration r \<noteq> None \<and> completed_at r \<noteq> None"
    using assms by (simp add: c wf_def)
  have 4: "length (completed ?t) \<le> maxlen ?t"
    using assms by (simp add: c m wf_def)
  have fresh: "ident ?r \<notin> (ident \<circ> snd) ` set (active t)"
    using b by force
  have "distinct (map (ident \<circ> snd) (active t))"
    using assms by (simp add: wf_def records_def)
  then have d1: "distinct (map (ident \<circ> snd) (active ?t))"
    unfolding a using fresh by (rule distinct_update_fresh)
  have d2: "distinct (map ident (completed t))"
    using assms by (simp add: wf_def records_def)
  have d3: "ident x \<noteq> ident y" if "x \<in> snd ` set (active ?t)" "y \<in> set (completed t)" for x y
  proof -
    from that(1) sub have "x = ?r \<or> x \<in> snd ` set (active t)" by auto
    then show ?thesis
    proof
      assume "x = ?r"
      then show ?thesis using b[of y] that(2) by simp
    next
      assume "x \<in> snd ` set (active t)"
      then show ?thesis using assms that(2) by (auto simp: wf_def records_def)
    qed
  qed
  have 5: "distinct (map ident (records ?t))"
    using d1 d2 d3 by (auto simp: records_def c)
  have 6: "\<forall>r \<in> set (records ?t). ident r < next_ident ?t"
  proof
    fix r assume "r \<in> set (records ?t)"
    then have "r = ?r \<or> r \<in> snd ` set (active t) \<union> set (completed t)"
      using sub by (auto simp: records_def c)
    then show "ident r < next_ident ?t"
    proof
      assume "r = ?r"
      then show ?thesis by (simp add: n)
    next
      assume "r \<in> snd ` set (active t) \<union> set (completed t)"
      then have "ident r < next_ident t" by (rule b)
      then show ?thesis by (simp add: n)
    qed
  qed
  show ?thesis unfolding wf_def using 1 2 3 4 5 6 by blast
qed

lemma wf_update_in_place:
  assumes "wf t" and look: "map_of (active t) p = Some r"
  shows "wf (t\<lparr>active := AList.update p (r\<lparr>name := nm, predicted := pr, last_seen := now\<rparr>) (active t)\<rparr>)"
proof -
  let ?r = "r\<lparr>name := nm, predicted := pr, last_seen := now\<rparr>"
  let ?t = "t\<lparr>active := AList.update p ?r (active t)\<rparr>"
  have rin: "(p, r) \<in> set (active t)" using look by (rule map_of_SomeD)
  have sub: "set (active ?t) \<subseteq> insert (p, ?r) (set (active t))"
    by (simp add: set_update_subset)
  have dk: "distinct (map fst (active t))" using assms by (simp add: wf_def)
  have ids: "map (ident \<circ> snd) (active ?t) = map (ident \<circ> snd) (active t)"
    using map_update_same[OF look, of ident ?r] dk by simp
  have 1: "distinct (map fst (active ?t))"
    using dk by (simp add: distinct_update)
  have old: "\<And>q x. (q, x) \<in> set (active t) \<Longrightarrow>
      pid x = q \<and> actual_duration x = None \<and> completed_at x = None"
    using assms(1) by (auto simp: wf_def)
  have 2: "\<forall>(q, x) \<in> set (active ?t). pid x = q \<and> actual_duration x = None \<and> completed_at x = None"
  proof (clarify)
    fix q x assume "(q, x) \<in> set (active ?t)"
    with sub have "(q, x) = (p, ?r) \<or> (q, x) \<in> set (active t)" by blast
    then show "pid x = q \<and> actual_duration x = None \<and> completed_at x = None"
      using old[OF rin] old[of q x] by auto
  qed
  have 3: "\<forall>x \<in> set (completed ?t). actual_duration x \<noteq> None \<and> completed_at x \<noteq> None"
    using assms by (simp add: wf_def)
  have 4: "length (completed ?t) \<le> maxlen ?t"
    using assms by (simp add: wf_def)
  have idr: "map ident (records ?t) = map ident (records t)"
    using ids by (simp add: records_def)
  have 5: "distinct (map ident (records ?t))"
    unfolding idr using assms by (simp add: wf_def)
  have im: "ident ` set (records ?t) = ident ` set (records t)"
    using arg_cong[OF idr, of set] by simp
  have bd: "\<And>y. y \<in> set (records t) \<Longrightarrow> ident y < next_ident t"
    using assms(1) by (simp add: wf_def)
  have 6: "\<forall>x \<in> set (records ?t). ident x < next_ident ?t"
  proof
    fix x assume "x \<in> set (records ?t)"
    then have "ident x \<in> ident ` set (records t)" using im by blast
    then obtain y where "y \<in> set (records t)" "ident x = ident y" by blast
    then show "ident x < next_ident ?t" using bd[of y] by simp
  qed
  show ?thesis unfolding wf_def using 1 2 3 4 5 6 by blast
qed

lemma wf_update_running:
  assumes "wf t"
  shows "wf (snd (update_running t p nm ct pr now))"
proof (cases "map_of (active t) p")
  case None
  then show ?thesis using wf_replace_record[OF assms] by (simp add: update_running_def)
next
  case (Some r)
  show ?thesis
  proof (cases "\<bar>create_time r - ct\<bar> > 1")
    case True
    then show ?thesis using Some wf_replace_record[OF assms] by (simp add: update_running_def)
  next
    case False
    then show ?thesis using Some wf_update_in_place[OF assms Some] by (simp add: update_running_def Let_def)
  qed
qed

lemma wf_step: "wf t \<Longrightarrow> wf (step t c)"
  by (cases c) (simp_all add: wf_update_running wf_mark_missing)

lemma wf_run: "wf t \<Longrightarrow> wf (run cs t)"
  unfolding run_def by (induction cs arbitrary: t) (simp_all add: wf_step)

lemma wf_init: "tracker_init n = Inr t \<Longrightarrow> wf t"
  by (auto simp: tracker_init_def wf_def records_def split: if_splits)

lemma run_append: "run (cs @ ds) t = run ds (run cs t)"
  by (simp add: run_def)

lemma run_Cons: "run (c # cs) t = run cs (step t c)"
  by (simp add: run_def)

lemma run_Nil: "run [] t = t"
  by (simp add: run_def)

lemma map_of_filter_distinct:
  "distinct (map fst al) \<Longrightarrow>
     map_of (filter P al) q =
       (case map_of al q of None \<Rightarrow> None | Some r \<Rightarrow> if P (q, r) then Some r else None)"
proof (induction al)
  case Nil
  then show ?case by simp
next
  case (Cons e al)
  obtain k v where e: "e = (k, v)" by (cases e)
  show ?case
  proof (cases "k = q")
    case True
    with Cons.prems e have "q \<notin> fst ` set al" by auto
    then have n: "map_of al q = None" by (simp add: map_of_eq_None_iff)
    have "q \<notin> fst ` set (filter P al)" using \<open>q \<notin> fst ` set al\<close> by auto
    then have "map_of (filter P al) q = None" by (simp add: map_of_eq_None_iff)
    then show ?thesis using True e by simp
  next
    case False
    then show ?thesis using Cons e by simp
  qed
qed

lemma mark_missing_lookup:
  assumes "wf t"
  shows "map_of (active (mark_missing t pids check now)) q =
           (case map_of (active t) q of
              None \<Rightarrow> None
            | Some r \<Rightarrow> if closes pids check (q, r) then None else Some r)"
proof -
  from assms have d: "distinct (map fst (active t))" by (simp add: wf_def)
  show ?thesis
    unfolding mark_missing_fields(1)[OF assms]
    by (simp add: map_of_filter_distinct[OF d] split: option.splits)
qed

lemma active_not_completed:
  assumes "wf t" "map_of (active t) p = Some r" "h \<in> set (completed t)"
  shows "ident h \<noteq> ident r"
proof -
  have "(p, r) \<in> set (active t)" using assms(2) by (rule map_of_SomeD)
  then have "r \<in> set (map snd (active t))" by force
  moreover have "distinct (map ident (map snd (active t)) @ map ident (completed t))"
    using assms(1) by (simp add: wf_def records_def)
  ultimately show ?thesis using assms(3) by auto
qed

lemma active_running:
  assumes "wf t" "map_of (active t) p = Some r"
  shows "pid r = p" "actual_duration r = None" "completed_at r = None" "status r = ''running''"
proof -
  have "(p, r) \<in> set (active t)" using assms(2) by (rule map_of_SomeD)
  then show "pid r = p" "actual_duration r = None" "completed_at r = None"
    using assms(1) by (auto simp: wf_def)
  then show "status r = ''running''" by (simp add: status_def)
qed

lemma indeterminate_step:
  assumes "wf t" "map_of (active t) p = Some r" "indeterminate_for p c"
  shows "map_of (active (step t c)) p = Some r"
proof (cases c)
  case (Observe q nm ct pr now)
  with assms(3) show ?thesis by simp
next
  case (Reconcile pids check now)
  with assms(3) have "\<not> closes pids check (p, r)"
    by (simp add: closes_def should_close_def)
  then show ?thesis using Reconcile assms(2) by (simp add: mark_missing_lookup[OF assms(1)])
qed

lemma indeterminate_run:
  assumes "wf t" "map_of (active t) p = Some r" "\<forall>c \<in> set cs. indeterminate_for p c"
  shows "map_of (active (run cs t)) p = Some r"
  using assms
proof (induction cs arbitrary: t)
  case Nil
  then show ?case by (simp add: run_Nil)
next
  case (Cons c cs)
  have "map_of (active (step t c)) p = Some r"
    using Cons.prems by (simp add: indeterminate_step)
  moreover have "wf (step t c)" using Cons.prems(1) by (rule wf_step)
  ultimately show ?case using Cons.IH Cons.prems(3) by (simp add: run_Cons)
qed

lemma closes_iff:
  "closes pids check (p, r) \<longleftrightarrow>
     p \<notin> set pids \<and>
     (check p = Gone \<or> (\<exists>ct. check p = StillAlive ct \<and> \<bar>ct - create_time r\<bar> > 1))"
  by (cases "check p") (simp_all add: closes_def should_close_def)

lemma closed_now_mem:
  "(p, r) \<in> set (active t) \<Longrightarrow> closes pids check (p, r) \<Longrightarrow>
     close_record now r \<in> set (closed_now t pids check now)"
  by (force simp: closed_now_def)

lemma closed_now_from:
  "h \<in> set (closed_now t pids check now) \<Longrightarrow>
     \<exists>q r. (q, r) \<in> set (active t) \<and> closes pids check (q, r) \<and> h = close_record now r"
  by (fastforce simp: closed_now_def)

lemma mark_missing_completed_fold:
  assumes "wf t"
  shows "completed (mark_missing t pids check now) =
           foldl (deque_append (maxlen t)) (completed t) (closed_now t pids check now)"
proof -
  from assms have d: "distinct (map fst (active t))" by (simp add: wf_def)
  show ?thesis by (simp add: mark_missing_eq[OF d, of pids check now])
qed

lemma drop_keeps_short_suffix:
  "length ys \<le> n \<Longrightarrow> set ys \<subseteq> set (drop (length (xs @ ys) - n) (xs @ ys))"
  by auto

lemma mark_missing_cong:
  assumes "wf t" and "\<forall>q. q \<notin> set pids \<longrightarrow> check' q = check q"
  shows "mark_missing t pids check' now = mark_missing t pids check now"
proof -
  from assms(1) have d: "distinct (map fst (active t))" by (simp add: wf_def)
  have "closes pids check' = closes pids check"
    using assms(2) by (auto simp: closes_def fun_eq_iff)
  then show ?thesis
    by (simp add: mark_missing_eq[OF d] closed_now_def)
qed

lemma wf_ex_tracker: "wf ex_tracker"
  by (simp add: wf_def ex_tracker_def ex_rec_def records_def)

lemma wf_ex_tracker2: "wf ex_tracker2"
  by (simp add: wf_def ex_tracker2_def ex_rec_def ex_rec7_def records_def)

lemma wf_ex_tracker3: "wf ex_tracker3"
  by (simp add: wf_def ex_tracker3_def ex_rec_def ex_done_def records_def)

lemma update_running_fields:
  "completed (snd (update_running t p nm ct pr now)) = completed t"
  "maxlen (snd (update_running t p nm ct pr now)) = maxlen t"
  "fst ` set (active (snd (update_running t p nm ct pr now))) = insert p (fst ` set (active t))"
  "map fst (active (snd (update_running t p nm ct pr now))) =
     (if p \<in> set (map fst (active t)) then map fst (active t) else map fst (active t) @ [p])"
  "map_of (active (snd (update_running t p nm ct pr now))) =
     (map_of (active t))(p \<mapsto> fst (update_running t p nm ct pr now))"
  by (auto simp: update_running_def replace_record_def Let_def dom_update update_keys
      update_conv' split: option.splits)

lemma untracked_step:
  assumes "wf t" and "p \<notin> fst ` set (active t)" and "p \<notin> pid ` set (completed t)"
    and "\<not> observes p c"
  shows "p \<notin> fst ` set (active (step t c)) \<and> p \<notin> pid ` set (completed (step t c))"
proof (cases c)
  case (Observe q nm ct pr now)
  with assms(4) have "q \<noteq> p" by simp
  then show ?thesis using Observe assms(2,3) by (simp add: update_running_fields)
next
  case (Reconcile pids check now)
  let ?t = "mark_missing t pids check now"
  have a: "p \<notin> fst ` set (active ?t)"
    using assms(2) by (auto simp: mark_missing_fields(1)[OF assms(1)])
  have len: "length (completed t) \<le> maxlen t" using assms(1) by (simp add: wf_def)
  have sub: "set (completed ?t) \<subseteq> set (completed t) \<union> set (closed_now t pids check now)"
    using deque_fold_set[OF len] by (simp add: mark_missing_completed_fold[OF assms(1)])
  have "pid h \<noteq> p" if "h \<in> set (closed_now t pids check now)" for h
  proof -
    from that obtain q r where qr: "(q, r) \<in> set (active t)" "h = close_record now r"
      using closed_now_from by blast
    then have "pid r = q" using assms(1) by (auto simp: wf_def)
    moreover have "q \<noteq> p" using qr(1) assms(2) by force
    ultimately show ?thesis using qr(2) by simp
  qed
  then have "p \<notin> pid ` set (completed ?t)" using sub assms(3) by blast
  then show ?thesis using a Reconcile by simp
qed

lemma untracked_run:
  assumes "wf t" and "p \<notin> fst ` set (active t)" and "p \<notin> pid ` set (completed t)"
    and "\<forall>c \<in> set cs. \<not> observes p c"
  shows "p \<notin> fst ` set (active (run cs t)) \<and> p \<notin> pid ` set (completed (run cs t))"
  using assms
proof (induction cs arbitrary: t)
  case Nil
  then show ?case by (simp add: run_Nil)
next
  case (Cons c cs)
  have "p \<notin> fst ` set (active (step t c)) \<and> p \<notin> pid ` set (completed (step t c))"
    using Cons.prems by (simp add: untracked_step)
  moreover have "wf (step t c)" using Cons.prems(1) by (rule wf_step)
  ultimately show ?case using Cons.IH[of "step t c"] Cons.prems(4) by (simp add: run_Cons)
qed

lemma find_pid_None: "p \<notin> pid ` set xs \<Longrightarrow> find (\<lambda>r. pid r = p) xs = None"
  by (auto simp: find_None_iff)

lemma find_first_match:
  "\<forall>x \<in> set xs. \<not> P x \<Longrightarrow> P h \<Longrightarrow> find P (xs @ h # ys) = Some h"
  by (induction xs) auto

lemma update_running_idents:
  assumes "x \<in> snd ` set (active (snd (update_running t p nm ct pr now)))"
  shows "ident x = next_ident t \<or> ident x \<in> ident ` snd ` set (active t)"
proof (cases "map_of (active t) p")
  case None
  then have "active (snd (update_running t p nm ct pr now)) =
      AList.update p (fst (update_running t p nm ct pr now)) (active t)"
    and "ident (fst (update_running t p nm ct pr now)) = next_ident t"
    by (simp_all add: update_running_def replace_record_def Let_def)
  then show ?thesis using assms set_update_subset[of p _ "active t"] by force
next
  case (Some r)
  have rin: "(p, r) \<in> set (active t)" using Some by (rule map_of_SomeD)
  have a: "active (snd (update_running t p nm ct pr now)) =
      AList.update p (fst (update_running t p nm ct pr now)) (active t)"
    using Some by (simp add: update_running_def replace_record_def Let_def)
  have i: "ident (fst (update_running t p nm ct pr now)) = next_ident t \<or>
      ident (fst (update_running t p nm ct pr now)) = ident r"
    using Some by (simp add: update_running_def replace_record_def Let_def)
  from assms a set_update_subset[of p _ "active t"]
  have "x = fst (update_running t p nm ct pr now) \<or> x \<in> snd ` set (active t)" by force
  then show ?thesis using i rin by force
qed

lemma update_running_next_ident:
  "next_ident t \<le> next_ident (snd (update_running t p nm ct pr now))"
  by (simp add: update_running_def replace_record_def Let_def split: option.splits)

lemma ident_frozen_step:
  assumes "wf t" and "i < next_ident t"
    and "\<forall>x \<in> snd ` set (active t). ident x \<noteq> i"
    and "\<forall>x \<in> set (completed t). ident x = i \<longrightarrow> x \<in> H"
  shows "i < next_ident (step t c) \<and>
         (\<forall>x \<in> snd ` set (active (step t c)). ident x \<noteq> i) \<and>
         (\<forall>x \<in> set (completed (step t c)). ident x = i \<longrightarrow> x \<in> H)"
proof (cases c)
  case (Observe p nm ct pr now)
  let ?t = "snd (update_running t p nm ct pr now)"
  have 1: "i < next_ident ?t"
    using assms(2) update_running_next_ident[of t p nm ct pr now] by simp
  have 2: "\<forall>x \<in> snd ` set (active ?t). ident x \<noteq> i"
  proof
    fix x assume "x \<in> snd ` set (active ?t)"
    then have "ident x = next_ident t \<or> ident x \<in> ident ` snd ` set (active t)"
      by (rule update_running_idents)
    then show "ident x \<noteq> i" using assms(2,3) by auto
  qed
  have 3: "\<forall>x \<in> set (completed ?t). ident x = i \<longrightarrow> x \<in> H"
    using assms(4) by (simp add: update_running_fields(1))
  show ?thesis using 1 2 3 Observe by simp
next
  case (Reconcile pids check now)
  let ?t = "mark_missing t pids check now"
  have 1: "i < next_ident ?t" using assms(2) by (simp add: mark_missing_fields(4)[OF assms(1)])
  have 2: "\<forall>x \<in> snd ` set (active ?t). ident x \<noteq> i"
    using assms(3) by (auto simp: mark_missing_fields(1)[OF assms(1)])
  have len: "length (completed t) \<le> maxlen t" using assms(1) by (simp add: wf_def)
  have sub: "set (completed ?t) \<subseteq> set (completed t) \<union> set (closed_now t pids check now)"
    using deque_fold_set[OF len] by (simp add: mark_missing_completed_fold[OF assms(1)])
  have cl: "ident h \<noteq> i" if "h \<in> set (closed_now t pids check now)" for h
  proof -
    from that obtain q r where qr: "(q, r) \<in> set (active t)" "h = close_record now r"
      using closed_now_from by blast
    then have "r \<in> snd ` set (active t)" by force
    with assms(3) have "ident r \<noteq> i" by blast
    then show ?thesis using qr(2) by simp
  qed
  have 3: "\<forall>x \<in> set (completed ?t). ident x = i \<longrightarrow> x \<in> H"
    using sub cl assms(4) by blast
  show ?thesis using 1 2 3 Reconcile by simp
qed

lemma ident_frozen_run:
  assumes "wf t" and "i < next_ident t"
    and "\<forall>x \<in> snd ` set (active t). ident x \<noteq> i"
    and "\<forall>x \<in> set (completed t). ident x = i \<longrightarrow> x \<in> H"
  shows "(\<forall>x \<in> snd ` set (active (run cs t)). ident x \<noteq> i) \<and>
         (\<forall>x \<in> set (completed (run cs t)). ident x = i \<longrightarrow> x \<in> H)"
  using assms
proof (induction cs arbitrary: t)
  case Nil
  then show ?case by (simp add: run_Nil)
next
  case (Cons c cs)
  note s = ident_frozen_step[OF Cons.prems, of c]
  have w: "wf (step t c)" using Cons.prems(1) by (rule wf_step)
  show ?case
    using Cons.IH[OF w] s by (simp add: run_Cons)
qed

lemma wf_records_bound: "wf t \<Longrightarrow> x \<in> set (records t) \<Longrightarrow> ident x < next_ident t"
  by (simp add: wf_def)

lemma wf_completed_inj:
  assumes "wf t" "h \<in> set (completed t)" "x \<in> set (completed t)" "ident x = ident h"
  shows "x = h"
proof -
  have "distinct (map ident (completed t))" using assms(1) by (simp add: wf_def records_def)
  then have "inj_on ident (set (completed t))" by (simp add: distinct_map)
  then show ?thesis using assms(2,3,4) by (auto dest: inj_onD)
qed

lemma wf_active_not_completed_set:
  assumes "wf t" "h \<in> set (completed t)" "x \<in> snd ` set (active t)"
  shows "ident x \<noteq> ident h"
proof -
  have "distinct (map ident (map snd (active t)) @ map ident (completed t))"
    using assms(1) by (simp add: wf_def records_def)
  then show ?thesis using assms(2,3) by auto
qed

lemma ex_new_init: "tracker_init 20 = Inr ex_new"
  by (simp add: tracker_init_def ex_new_def)

lemma run_ex_calls:
  "run ex_calls ex_new =
     \<lparr>active = [], completed = [close_record 1010 ex_rec], maxlen = 20, next_ident = 1\<rparr>"
  by (simp add: run_def ex_calls_def ex_new_def update_running_def replace_record_def
      mark_missing_def mark_missing_step_def should_close_def deque_append_def ex_rec_def Let_def)

lemma run_ex_calls_later:
  "run ex_calls_later (run ex_calls ex_new) =
     \<lparr>active = [], completed = [close_record 1010 ex_rec, close_record 2010 ex_rec_later],
      maxlen = 20, next_ident = 2\<rparr>"
  unfolding run_ex_calls
  by (simp add: run_def ex_calls_later_def update_running_def replace_record_def
      mark_missing_def mark_missing_step_def should_close_def deque_append_def ex_rec_later_def
      Let_def)

lemma set_update_distinct:
  "distinct (map fst al) \<Longrightarrow>
     set (AList.update k v al) = insert (k, v) {e \<in> set al. fst e \<noteq> k}"
  by (induction al) (auto simp: rev_image_eqI)

lemma count_key_one:
  "distinct (map fst al) \<Longrightarrow> k \<in> fst ` set al \<Longrightarrow>
     length (filter (\<lambda>e. fst e = k) al) = 1"
proof (induction al)
  case Nil
  then show ?case by simp
next
  case (Cons e al)
  show ?case
  proof (cases "fst e = k")
    case True
    from Cons.prems(1) have "fst e \<notin> fst ` set al" by simp
    with True have "\<forall>x \<in> set al. fst x \<noteq> k" by blast
    then have "filter (\<lambda>e. fst e = k) al = []" by (simp add: filter_empty_conv)
    then show ?thesis using True by simp
  next
    case False
    then show ?thesis using Cons by auto
  qed
qed

lemma observe_same_step:
  assumes "map_of (active t) p = Some r0" and "\<not> \<bar>create_time r0 - ct\<bar> > 1"
  shows "update_running t p nm ct pr now =
           (r0\<lparr>name := nm, predicted := pr, last_seen := now\<rparr>,
            t\<lparr>active := AList.update p (r0\<lparr>name := nm, predicted := pr, last_seen := now\<rparr>)
                          (active t)\<rparr>)"
  using assms by (simp add: update_running_def Let_def)

lemma same_identity_run:
  assumes "map_of (active t) p = Some r0"
    and "\<forall>c \<in> set cs. same_identity p (create_time r0) c"
  shows "(\<exists>nm pr ls. map_of (active (run cs t)) p =
            Some (r0\<lparr>name := nm, predicted := pr, last_seen := ls\<rparr>)) \<and>
         map fst (active (run cs t)) = map fst (active t) \<and>
         completed (run cs t) = completed t \<and>
         next_ident (run cs t) = next_ident t"
  using assms
proof (induction cs arbitrary: t r0)
  case Nil
  have "r0 = r0\<lparr>name := name r0, predicted := predicted r0, last_seen := last_seen r0\<rparr>"
    by simp
  then have "map_of (active t) p =
      Some (r0\<lparr>name := name r0, predicted := predicted r0, last_seen := last_seen r0\<rparr>)"
    using Nil.prems(1) by simp
  then show ?case unfolding run_Nil by blast
next
  case (Cons c cs)
  from Cons.prems(2) have sc: "same_identity p (create_time r0) c" by simp
  then obtain nm ct pr now where c: "c = Observe p nm ct pr now"
    and near: "\<not> \<bar>create_time r0 - ct\<bar> > 1"
    by (cases c) auto
  let ?r1 = "r0\<lparr>name := nm, predicted := pr, last_seen := now\<rparr>"
  let ?t1 = "t\<lparr>active := AList.update p ?r1 (active t)\<rparr>"
  have st: "step t c = ?t1"
    using observe_same_step[OF Cons.prems(1) near] by (simp add: c)
  have l1: "map_of (active ?t1) p = Some ?r1" by (simp add: update_conv')
  have pin: "p \<in> fst ` set (active t)"
    using map_of_SomeD[OF Cons.prems(1)] by force
  have k1: "map fst (active ?t1) = map fst (active t)"
    using pin by (simp add: update_keys)
  have r1: "\<forall>c \<in> set cs. same_identity p (create_time ?r1) c"
    using Cons.prems(2) by simp
  from Cons.IH[OF l1 r1]
  obtain nm' pr' ls' where
    a: "map_of (active (run cs ?t1)) p = Some (?r1\<lparr>name := nm', predicted := pr', last_seen := ls'\<rparr>)"
    and b: "map fst (active (run cs ?t1)) = map fst (active ?t1)"
    and d: "completed (run cs ?t1) = completed ?t1"
    and e: "next_ident (run cs ?t1) = next_ident ?t1"
    by blast
  have "map_of (active (run cs ?t1)) p = Some (r0\<lparr>name := nm', predicted := pr', last_seen := ls'\<rparr>)"
    using a by simp
  then show ?case
    unfolding run_Cons st using b d e k1 by auto
qed

lemma drop_window:
  "drop (length (drop (length xs - n) xs @ ys) - n) (drop (length xs - n) xs @ ys) =
     drop (length (xs @ ys) - n) (xs @ ys)"
proof (cases "length xs \<le> n")
  case True
  then show ?thesis by simp
next
  case False
  then have l: "n < length xs" by simp
  let ?k = "length xs - n"
  have a: "length (drop ?k xs @ ys) - n = length ys" using l by simp
  have b: "length (xs @ ys) - n = ?k + length ys" using l by simp
  have "drop (?k + length ys) (xs @ ys) = drop (length ys) (drop ?k (xs @ ys))"
    by (simp add: add.commute)
  also have "drop ?k (xs @ ys) = drop ?k xs @ ys" using l by simp
  finally show ?thesis by (simp only: a b)
qed

lemma run_completed:
  assumes "wf t"
  shows "completed (run cs t) =
           drop (length (completed t @ closed_log cs t) - maxlen t) (completed t @ closed_log cs t) \<and>
         maxlen (run cs t) = maxlen t"
  using assms
proof (induction cs arbitrary: t)
  case Nil
  then show ?case by (simp add: run_Nil wf_def)
next
  case (Cons c cs)
  have w: "wf (step t c)" using Cons.prems by (rule wf_step)
  note ih = Cons.IH[OF w]
  show ?case
  proof (cases c)
    case (Observe p nm ct pr now)
    have "completed (step t c) = completed t" "maxlen (step t c) = maxlen t"
      by (simp_all add: Observe update_running_fields)
    then show ?thesis using ih by (simp add: run_Cons Observe)
  next
    case (Reconcile pids check now)
    let ?cl = "closed_now t pids check now"
    have c1: "completed (step t c) =
        drop (length (completed t @ ?cl) - maxlen t) (completed t @ ?cl)"
      and m1: "maxlen (step t c) = maxlen t"
      using mark_missing_fields(2,3)[OF Cons.prems] by (simp_all add: Reconcile)
    have "completed (run cs (step t c)) =
        drop (length ((completed t @ ?cl) @ closed_log cs (step t c)) - maxlen t)
             ((completed t @ ?cl) @ closed_log cs (step t c))"
      using ih unfolding c1 m1 by (simp only: drop_window)
    then show ?thesis using ih m1 by (simp add: run_Cons Reconcile)
  qed
qed

lemma ex_new2_init: "tracker_init (int 2) = Inr ex_new2"
  by (simp add: tracker_init_def ex_new2_def)

lemma run_ex_three:
  "run ex_three ex_new2 =
     \<lparr>active = [], completed = [ex_closed 1 2 ''b'' 20, ex_closed 2 3 ''c'' 30],
      maxlen = 2, next_ident = 3\<rparr>"
  by (simp add: run_def ex_three_def ex_new2_def update_running_def replace_record_def
      mark_missing_def mark_missing_step_def should_close_def deque_append_def close_record_def
      ex_closed_def Let_def)

lemma log_ex_three:
  "closed_log ex_three ex_new2 =
     [ex_closed 0 1 ''a'' 10, ex_closed 1 2 ''b'' 20, ex_closed 2 3 ''c'' 30]"
  by (simp add: ex_three_def ex_new2_def update_running_def replace_record_def
      mark_missing_def mark_missing_step_def should_close_def deque_append_def close_record_def
      closed_now_def closes_def ex_closed_def Let_def)

lemma run_ex_four:
  "run ex_four ex_new2 =
     \<lparr>active = [(4, \<lparr>ident = 3, pid = 4, name = ''d'', create_time = 40, predicted = 1,
                      first_seen = 41, last_seen = 41, actual_duration = None,
                      completed_at = None\<rparr>)],
      completed = [ex_closed 1 2 ''b'' 20, ex_closed 2 3 ''c'' 30], maxlen = 2, next_ident = 4\<rparr>"
  unfolding ex_four_def run_append run_ex_three
  by (simp add: run_def update_running_def replace_record_def Let_def)

section \<open>The claims\<close>

text \<open>
  C2. An active record whose pid is missing from the observed pids and for which every
  reconciliation gets \<open>Indeterminate\<close> (access denied) is never closed: after any number
  of such \<^verbatim>\<open>mark_missing\<close> calls the record is still in the active set, unchanged, its
  status and the status the tracker reports for its pid are \<open>running\<close>, and no record of
  the history is this record.
\<close>

theorem indeterminate_never_closes:
  assumes "wf t" and "map_of (active t) p = Some r"
    and "\<forall>c \<in> set cs. indeterminate_for p c"
  shows "map_of (active (run cs t)) p = Some r \<and>
         status r = ''running'' \<and>
         status_for (run cs t) p = ''running'' \<and>
         (\<forall>h \<in> set (completed (run cs t)). ident h \<noteq> ident r)"
proof -
  have a: "map_of (active (run cs t)) p = Some r" using assms by (rule indeterminate_run)
  have w: "wf (run cs t)" using assms(1) by (rule wf_run)
  have s: "status r = ''running''" using active_running(4)[OF w a] .
  have "status_for (run cs t) p = ''running''" using a s by (simp add: status_for_def)
  moreover have "\<forall>h \<in> set (completed (run cs t)). ident h \<noteq> ident r"
    using active_not_completed[OF w a] by blast
  ultimately show ?thesis using a s by blast
qed

theorem indeterminate_never_closes_witness:
  "wf ex_tracker \<and> map_of (active ex_tracker) 99 = Some ex_rec \<and>
   list_all (indeterminate_for 99)
     [Reconcile [] (\<lambda>q. Indeterminate) 1002, Reconcile [7] (\<lambda>q. Indeterminate) 1004] \<and>
   map_of (active (run [Reconcile [] (\<lambda>q. Indeterminate) 1002,
                        Reconcile [7] (\<lambda>q. Indeterminate) 1004] ex_tracker)) 99 = Some ex_rec \<and>
   status_for (run [Reconcile [] (\<lambda>q. Indeterminate) 1002,
                    Reconcile [7] (\<lambda>q. Indeterminate) 1004] ex_tracker) 99 = ''running''"
proof -
  have h: "map_of (active ex_tracker) 99 = Some ex_rec" by (simp add: ex_tracker_def)
  have i: "\<forall>c \<in> set [Reconcile [] (\<lambda>q. Indeterminate) 1002,
                        Reconcile [7] (\<lambda>q. Indeterminate) 1004]. indeterminate_for 99 c"
    by simp
  show ?thesis
    using indeterminate_never_closes[OF wf_ex_tracker h i] wf_ex_tracker h by simp
qed

text \<open>
  C7. \<^verbatim>\<open>mark_missing\<close> is idempotent: with the same observed pids, the same answers about
  each pid and the same clock reading, a second call leaves the state of the first call
  as it is, so no record is closed twice and the history gets no second entry.
\<close>

theorem reconcile_idempotent:
  assumes "wf t"
  shows "mark_missing (mark_missing t pids check now) pids check now =
         mark_missing t pids check now"
proof -
  let ?t = "mark_missing t pids check now"
  have w: "wf ?t" using assms by (rule wf_mark_missing)
  then have d: "distinct (map fst (active ?t))" by (simp add: wf_def)
  have a: "active ?t = filter (\<lambda>e. \<not> closes pids check e) (active t)"
    by (rule mark_missing_fields(1)[OF assms])
  have keep: "filter (\<lambda>e. \<not> closes pids check e) (active ?t) = active ?t"
    unfolding a by simp
  have none: "closed_now ?t pids check now = []"
    unfolding closed_now_def a by simp
  show ?thesis
    unfolding mark_missing_eq[OF d, of pids check now] keep none by simp
qed

theorem reconcile_idempotent_witness:
  "wf ex_tracker \<and>
   mark_missing (mark_missing ex_tracker [] (\<lambda>q. Gone) 1010) [] (\<lambda>q. Gone) 1010 =
     mark_missing ex_tracker [] (\<lambda>q. Gone) 1010 \<and>
   mark_missing ex_tracker [] (\<lambda>q. Gone) 1010 =
     \<lparr>active = [], completed = [close_record 1010 ex_rec], maxlen = 20, next_ident = 1\<rparr>"
proof -
  have "mark_missing ex_tracker [] (\<lambda>q. Gone) 1010 =
     \<lparr>active = [], completed = [close_record 1010 ex_rec], maxlen = 20, next_ident = 1\<rparr>"
    by (simp add: mark_missing_def mark_missing_step_def ex_tracker_def should_close_def
        deque_append_def)
  then show ?thesis
    using reconcile_idempotent[OF wf_ex_tracker, of "[]" "\<lambda>q. Gone" 1010] wf_ex_tracker
    by simp
qed

text \<open>
  C1. For a record \<open>r\<close> active under a pid \<open>p\<close> that is absent from the observed pids,
  \<^verbatim>\<open>mark_missing\<close> closes the record exactly when the process table answers \<open>Gone\<close> or
  answers \<open>StillAlive ct\<close> with \<open>ct\<close> more than 1.0 away from the stored creation time.
  On closing, the pid leaves the active set and the record, with \<open>completed_at = now\<close> and
  \<open>actual_duration = max (now - create_time) 0\<close> and every other field as it was, is among
  the records the call appends to the history; it is in the resulting history whenever the
  call closes no more records than \<^verbatim>\<open>maxlen\<close>. Otherwise the record stays active, unchanged,
  and is not in the history. The history after the call is the history before it with the
  closed records appended by \<^verbatim>\<open>deque.append\<close>, in the order of the loop.
\<close>

theorem reconcile_closes_missing:
  assumes "wf t" and "map_of (active t) p = Some r" and "p \<notin> set pids"
  shows "(if check p = Gone \<or> (\<exists>ct. check p = StillAlive ct \<and> \<bar>ct - create_time r\<bar> > 1)
          then map_of (active (mark_missing t pids check now)) p = None \<and>
               close_record now r \<in> set (closed_now t pids check now) \<and>
               (length (closed_now t pids check now) \<le> maxlen t \<longrightarrow>
                  close_record now r \<in> set (completed (mark_missing t pids check now)))
          else map_of (active (mark_missing t pids check now)) p = Some r \<and>
               (\<forall>h \<in> set (completed (mark_missing t pids check now)). ident h \<noteq> ident r)) \<and>
         completed (mark_missing t pids check now) =
           foldl (deque_append (maxlen t)) (completed t) (closed_now t pids check now) \<and>
         close_record now r =
           r\<lparr>completed_at := Some now, actual_duration := Some (max (now - create_time r) 0)\<rparr>"
proof -
  let ?t = "mark_missing t pids check now"
  let ?cl = "closed_now t pids check now"
  let ?cond = "check p = Gone \<or> (\<exists>ct. check p = StillAlive ct \<and> \<bar>ct - create_time r\<bar> > 1)"
  have w: "wf ?t" using assms(1) by (rule wf_mark_missing)
  have rin: "(p, r) \<in> set (active t)" using assms(2) by (rule map_of_SomeD)
  have c: "closes pids check (p, r) \<longleftrightarrow> ?cond"
    using assms(3) by (simp add: closes_iff)
  have look: "map_of (active ?t) p = (if ?cond then None else Some r)"
    using assms(2) c by (simp add: mark_missing_lookup[OF assms(1)])
  have fold: "completed ?t = foldl (deque_append (maxlen t)) (completed t) ?cl"
    using assms(1) by (rule mark_missing_completed_fold)
  have cr: "close_record now r =
      r\<lparr>completed_at := Some now, actual_duration := Some (max (now - create_time r) 0)\<rparr>"
    by (simp add: close_record_def)
  show ?thesis
  proof (cases ?cond)
    case True
    then have m: "close_record now r \<in> set ?cl"
      using c rin by (simp add: closed_now_mem)
    have "close_record now r \<in> set (completed ?t)" if "length ?cl \<le> maxlen t"
      using drop_keeps_short_suffix[OF that, of "completed t"] m
      unfolding mark_missing_fields(2)[OF assms(1)] by blast
    then show ?thesis using True look m fold cr by simp
  next
    case False
    then have a: "map_of (active ?t) p = Some r" using look by simp
    have "\<forall>h \<in> set (completed ?t). ident h \<noteq> ident r"
      using active_not_completed[OF w a] by blast
    then show ?thesis using False a fold cr by simp
  qed
qed

theorem reconcile_closes_missing_witness:
  "wf ex_tracker \<and> map_of (active ex_tracker) 99 = Some ex_rec \<and> 99 \<notin> set [] \<and>
   map_of (active (mark_missing ex_tracker [] (\<lambda>q. Gone) 1010)) 99 = None \<and>
   completed (mark_missing ex_tracker [] (\<lambda>q. Gone) 1010) =
     [ex_rec\<lparr>completed_at := Some 1010, actual_duration := Some 10\<rparr>] \<and>
   map_of (active (mark_missing ex_tracker [] (\<lambda>q. StillAlive (2001 / 2)) 1010)) 99 = Some ex_rec"
proof -
  have h: "map_of (active ex_tracker) 99 = Some ex_rec" by (simp add: ex_tracker_def)
  have n: "(99::int) \<notin> set []" by simp
  have c: "closed_now ex_tracker [] (\<lambda>q. Gone) 1010 = [close_record 1010 ex_rec]"
    by (simp add: closed_now_def closes_def should_close_def ex_tracker_def)
  have m: "maxlen ex_tracker = 20" "completed ex_tracker = []" by (simp_all add: ex_tracker_def)
  have v: "create_time ex_rec = 1000" by (simp add: ex_rec_def)
  have cr: "close_record 1010 ex_rec = ex_rec\<lparr>completed_at := Some 1010, actual_duration := Some 10\<rparr>"
    by (simp add: close_record_def v)
  note g = reconcile_closes_missing[OF wf_ex_tracker h n, of "\<lambda>q. Gone" 1010]
  from g have g1: "map_of (active (mark_missing ex_tracker [] (\<lambda>q. Gone) 1010)) 99 = None"
    by (simp only: simp_thms if_True)
  from g have "completed (mark_missing ex_tracker [] (\<lambda>q. Gone) 1010) =
      foldl (deque_append (maxlen ex_tracker)) (completed ex_tracker)
        (closed_now ex_tracker [] (\<lambda>q. Gone) 1010)"
    by blast
  then have g2: "completed (mark_missing ex_tracker [] (\<lambda>q. Gone) 1010) =
      [ex_rec\<lparr>completed_at := Some 1010, actual_duration := Some 10\<rparr>]"
    by (simp only: c m cr) (simp add: deque_append_def)
  note s = reconcile_closes_missing[OF wf_ex_tracker h n, of "\<lambda>q. StillAlive (2001 / 2)" 1010]
  have nc: "\<not> (StillAlive (2001 / 2) = Gone \<or>
      (\<exists>ct. StillAlive (2001 / 2) = StillAlive ct \<and> \<bar>ct - create_time ex_rec\<bar> > 1))"
    by (simp add: v)
  from s nc have g3: "map_of (active (mark_missing ex_tracker [] (\<lambda>q. StillAlive (2001 / 2)) 1010)) 99
      = Some ex_rec"
    by (simp only: if_False)
  show ?thesis using wf_ex_tracker h g1 g2 g3 by simp
qed

text \<open>
  C8, as amended. The frame of \<^verbatim>\<open>mark_missing(pids)\<close>: an active record whose pid is in \<open>pids\<close> is still
  active afterwards, with every field as before, and is not in the history; the answers of
  the process table about the pids in \<open>pids\<close> do not matter for the result, so they are not
  consulted; the history changes only by the \<^verbatim>\<open>deque.append\<close> of the records closed in this
  call (all of pids outside \<open>pids\<close>), which drops entries from the old end beyond
  \<^verbatim>\<open>maxlen\<close>, so every record of the new history is a record of the old one or one
  closed in this call, and the history is the same when no record is closed;
  \<^verbatim>\<open>maxlen\<close> and the identities still to be given are untouched.
\<close>

theorem reconcile_frame:
  assumes "wf t"
  shows "(\<forall>p r. p \<in> set pids \<longrightarrow> map_of (active t) p = Some r \<longrightarrow>
            map_of (active (mark_missing t pids check now)) p = Some r \<and>
            (\<forall>h \<in> set (completed (mark_missing t pids check now)). ident h \<noteq> ident r)) \<and>
         (\<forall>check'. (\<forall>q. q \<notin> set pids \<longrightarrow> check' q = check q) \<longrightarrow>
            mark_missing t pids check' now = mark_missing t pids check now) \<and>
         completed (mark_missing t pids check now) =
           foldl (deque_append (maxlen t)) (completed t) (closed_now t pids check now) \<and>
         (\<forall>h \<in> set (closed_now t pids check now). pid h \<notin> set pids) \<and>
         (\<forall>h \<in> set (completed (mark_missing t pids check now)).
            h \<in> set (completed t) \<or> h \<in> set (closed_now t pids check now)) \<and>
         (closed_now t pids check now = [] \<longrightarrow>
            completed (mark_missing t pids check now) = completed t) \<and>
         maxlen (mark_missing t pids check now) = maxlen t \<and>
         next_ident (mark_missing t pids check now) = next_ident t"
proof -
  let ?t = "mark_missing t pids check now"
  let ?cl = "closed_now t pids check now"
  have w: "wf ?t" using assms by (rule wf_mark_missing)
  have 1: "map_of (active ?t) p = Some r \<and> (\<forall>h \<in> set (completed ?t). ident h \<noteq> ident r)"
    if "p \<in> set pids" "map_of (active t) p = Some r" for p r
  proof -
    have "\<not> closes pids check (p, r)" using that(1) by (simp add: closes_def)
    then have a: "map_of (active ?t) p = Some r"
      using that(2) by (simp add: mark_missing_lookup[OF assms])
    then show ?thesis using active_not_completed[OF w a] by blast
  qed
  have 2: "\<forall>check'. (\<forall>q. q \<notin> set pids \<longrightarrow> check' q = check q) \<longrightarrow>
            mark_missing t pids check' now = ?t"
    using mark_missing_cong[OF assms] by blast
  have 3: "completed ?t = foldl (deque_append (maxlen t)) (completed t) ?cl"
    using assms by (rule mark_missing_completed_fold)
  have 4: "\<forall>h \<in> set ?cl. pid h \<notin> set pids"
  proof
    fix h assume "h \<in> set ?cl"
    then obtain q r where qr: "(q, r) \<in> set (active t)" "closes pids check (q, r)"
      "h = close_record now r" using closed_now_from by blast
    moreover have "pid r = q" using assms qr(1) by (auto simp: wf_def)
    ultimately show "pid h \<notin> set pids" by (simp add: closes_def)
  qed
  have len: "length (completed t) \<le> maxlen t" using assms by (simp add: wf_def)
  have 5: "\<forall>h \<in> set (completed ?t). h \<in> set (completed t) \<or> h \<in> set ?cl"
    using deque_fold_set[OF len, of ?cl] unfolding 3 by blast
  have 6: "?cl = [] \<longrightarrow> completed ?t = completed t"
    unfolding 3 by simp
  have 7: "maxlen ?t = maxlen t" "next_ident ?t = next_ident t"
    using mark_missing_fields(3,4)[OF assms] by simp_all
  show ?thesis using 1 2 3 4 5 6 7 by blast
qed

theorem reconcile_frame_witness:
  "wf ex_tracker2 \<and> map_of (active ex_tracker2) 99 = Some ex_rec \<and>
   map_of (active (mark_missing ex_tracker2 [99] (\<lambda>q. Gone) 1010)) 99 = Some ex_rec \<and>
   completed (mark_missing ex_tracker2 [99] (\<lambda>q. Gone) 1010) = [close_record 1010 ex_rec7] \<and>
   mark_missing ex_tracker2 [99] (\<lambda>q. if q = 99 then Indeterminate else Gone) 1010 =
     mark_missing ex_tracker2 [99] (\<lambda>q. Gone) 1010"
proof -
  note f = reconcile_frame[OF wf_ex_tracker2, of "[99]" "\<lambda>q. Gone" 1010]
  have h: "map_of (active ex_tracker2) 99 = Some ex_rec" by (simp add: ex_tracker2_def)
  have i: "(99::int) \<in> set [99]" by simp
  have c: "closed_now ex_tracker2 [99] (\<lambda>q. Gone) 1010 = [close_record 1010 ex_rec7]"
    by (simp add: closed_now_def closes_def should_close_def ex_tracker2_def)
  have m: "maxlen ex_tracker2 = 20" "completed ex_tracker2 = []" by (simp_all add: ex_tracker2_def)
  from f i h have a: "map_of (active (mark_missing ex_tracker2 [99] (\<lambda>q. Gone) 1010)) 99 = Some ex_rec"
    by blast
  have e: "\<forall>q. q \<notin> set [99] \<longrightarrow> (if q = 99 then Indeterminate else Gone) = Gone"
    by simp
  from f have 2: "\<forall>check'. (\<forall>q. q \<notin> set [99] \<longrightarrow> check' q = Gone) \<longrightarrow>
      mark_missing ex_tracker2 [99] check' 1010 = mark_missing ex_tracker2 [99] (\<lambda>q. Gone) 1010"
    by (rule conjunct1[OF conjunct2])
  have b: "mark_missing ex_tracker2 [99] (\<lambda>q. if q = 99 then Indeterminate else Gone) 1010 =
     mark_missing ex_tracker2 [99] (\<lambda>q. Gone) 1010"
    using 2[rule_format, of "\<lambda>q. if q = 99 then Indeterminate else Gone"] e by blast
  from f have 3: "completed (mark_missing ex_tracker2 [99] (\<lambda>q. Gone) 1010) =
      foldl (deque_append (maxlen ex_tracker2)) (completed ex_tracker2)
        (closed_now ex_tracker2 [99] (\<lambda>q. Gone) 1010)"
    by (rule conjunct1[OF conjunct2[OF conjunct2]])
  have d: "completed (mark_missing ex_tracker2 [99] (\<lambda>q. Gone) 1010) = [close_record 1010 ex_rec7]"
    unfolding 3 c m by (simp add: deque_append_def)
  show ?thesis using wf_ex_tracker2 h a b d by simp
qed

text \<open>
  C9. For a pid that no \<^verbatim>\<open>update_running\<close> call was ever made for, on a tracker driven
  from its construction by any sequence of calls, \<^verbatim>\<open>current_elapsed\<close> returns \<^verbatim>\<open>None\<close> and
  \<^verbatim>\<open>status_for\<close> returns \<open>unknown\<close>. In every state and for every pid \<^verbatim>\<open>status_for\<close>
  returns one of \<open>running\<close>, \<open>completed\<close>, \<open>unknown\<close>. Both lookups are total functions of
  the state: they have no error result and return no new state.
\<close>

theorem untracked_lookups:
  assumes "tracker_init n = Inr t0" and "\<forall>c \<in> set cs. \<not> observes p c"
  shows "current_elapsed (run cs t0) p clock = None \<and>
         status_for (run cs t0) p = ''unknown'' \<and>
         (\<forall>t q. status_for t q \<in> {''running'', ''completed'', ''unknown''})"
proof -
  have w: "wf t0" using assms(1) by (rule wf_init)
  have e: "active t0 = []" "completed t0 = []"
    using assms(1) by (auto simp: tracker_init_def split: if_splits)
  have u: "p \<notin> fst ` set (active (run cs t0)) \<and> p \<notin> pid ` set (completed (run cs t0))"
    using untracked_run[OF w _ _ assms(2)] e by simp
  then have a: "map_of (active (run cs t0)) p = None" by (simp add: map_of_eq_None_iff)
  have f: "find (\<lambda>r. pid r = p) (completed (run cs t0)) = None"
    using u by (simp add: find_pid_None)
  have "\<forall>t q. status_for t q \<in> {''running'', ''completed'', ''unknown''}"
    by (simp add: status_for_def status_def split: option.splits)
  then show ?thesis using a f by (simp add: current_elapsed_def status_for_def)
qed

theorem untracked_lookups_witness:
  "tracker_init 20 = Inr \<lparr>active = [], completed = [], maxlen = 20, next_ident = 0\<rparr> \<and>
   list_all (\<lambda>c. \<not> observes 7 c)
     [Observe 99 ''build'' 1000 (25 / 2) 1001, Reconcile [] (\<lambda>q. Gone) 1010] \<and>
   current_elapsed
     (run [Observe 99 ''build'' 1000 (25 / 2) 1001, Reconcile [] (\<lambda>q. Gone) 1010]
        \<lparr>active = [], completed = [], maxlen = 20, next_ident = 0\<rparr>) 7 5000 = None \<and>
   status_for
     (run [Observe 99 ''build'' 1000 (25 / 2) 1001, Reconcile [] (\<lambda>q. Gone) 1010]
        \<lparr>active = [], completed = [], maxlen = 20, next_ident = 0\<rparr>) 7 = ''unknown''"
proof -
  have i: "tracker_init 20 = Inr \<lparr>active = [], completed = [], maxlen = 20, next_ident = 0\<rparr>"
    by (simp add: tracker_init_def)
  have o: "\<forall>c \<in> set [Observe 99 ''build'' 1000 (25 / 2) 1001, Reconcile [] (\<lambda>q. Gone) 1010].
      \<not> observes 7 c" by simp
  show ?thesis using untracked_lookups[OF i o, of 5000] i by simp
qed

text \<open>
  C10. The lookups consult the active set first: for a pid with an active record,
  \<^verbatim>\<open>status_for\<close> and \<^verbatim>\<open>current_elapsed\<close> answer from that record whatever the history
  holds, so in a well-formed state the answer is \<open>running\<close> and the clamped age, and right
  after an \<^verbatim>\<open>update_running\<close> for the pid the status is \<open>running\<close> even when the history
  has an entry of an earlier incarnation. For a pid with no active record, both answer
  from the first history entry with that pid in insertion order, the oldest one, also when
  later entries have the same pid.
\<close>

theorem lookup_order:
  "(\<forall>r. map_of (active t) p = Some r \<longrightarrow>
      status_for t p = status r \<and> current_elapsed t p clock = Some (elapsed r None clock)) \<and>
   (\<forall>r. wf t \<and> map_of (active t) p = Some r \<longrightarrow>
      status_for t p = ''running'' \<and>
      current_elapsed t p clock = Some (max (clock - create_time r) 0)) \<and>
   (wf t \<longrightarrow> status_for (snd (update_running t p nm ct pr now)) p = ''running'') \<and>
   (\<forall>xs h ys. map_of (active t) p = None \<and> completed t = xs @ h # ys \<and> pid h = p \<and>
      (\<forall>x \<in> set xs. pid x \<noteq> p) \<longrightarrow>
      status_for t p = status h \<and> current_elapsed t p clock = actual_duration h)"
proof -
  have 1: "status_for t p = status r \<and> current_elapsed t p clock = Some (elapsed r None clock)"
    if "map_of (active t) p = Some r" for r
    using that by (simp add: status_for_def current_elapsed_def)
  have 2: "status_for t p = ''running'' \<and>
      current_elapsed t p clock = Some (max (clock - create_time r) 0)"
    if "wf t" "map_of (active t) p = Some r" for r
    using 1[OF that(2)] active_running(2,4)[OF that] by (simp add: elapsed_def)
  have 3: "status_for (snd (update_running t p nm ct pr now)) p = ''running''" if "wf t"
  proof -
    let ?t = "snd (update_running t p nm ct pr now)"
    have w: "wf ?t" using that by (rule wf_update_running)
    have l: "map_of (active ?t) p = Some (fst (update_running t p nm ct pr now))"
      by (simp add: update_running_fields(5))
    show ?thesis using active_running(4)[OF w l] l by (simp add: status_for_def)
  qed
  have 4: "status_for t p = status h \<and> current_elapsed t p clock = actual_duration h"
    if "map_of (active t) p = None" "completed t = xs @ h # ys" "pid h = p"
      "\<forall>x \<in> set xs. pid x \<noteq> p" for xs h ys
  proof -
    have "find (\<lambda>r. pid r = p) (completed t) = Some h"
      unfolding that(2) using that(3,4) by (intro find_first_match) auto
    then show ?thesis using that(1) by (simp add: status_for_def current_elapsed_def)
  qed
  show ?thesis using 1 2 3 4 by blast
qed

theorem lookup_order_witness:
  "wf ex_tracker3 \<and> map_of (active ex_tracker3) 99 = Some ex_rec \<and>
   status_for ex_tracker3 99 = ''running'' \<and>
   current_elapsed ex_tracker3 99 5000 = Some 4000 \<and>
   map_of (active ex_tracker3) 7 = None \<and>
   completed ex_tracker3 = [ex_done 1 99 5] @ ex_done 2 7 11 # [ex_done 3 7 13] \<and>
   status_for ex_tracker3 7 = ''completed'' \<and>
   current_elapsed ex_tracker3 7 5000 = Some 11"
proof -
  have a: "map_of (active ex_tracker3) 99 = Some ex_rec" by (simp add: ex_tracker3_def)
  have b: "map_of (active ex_tracker3) 7 = None" by (simp add: ex_tracker3_def)
  have c: "completed ex_tracker3 = [ex_done 1 99 5] @ ex_done 2 7 11 # [ex_done 3 7 13]"
    by (simp add: ex_tracker3_def)
  have d: "pid (ex_done 2 7 11) = 7" "\<forall>x \<in> set [ex_done 1 99 5]. pid x \<noteq> 7"
    by (simp_all add: ex_done_def)
  have v: "create_time ex_rec = 1000" by (simp add: ex_rec_def)
  have e: "status (ex_done 2 7 11) = ''completed''" "actual_duration (ex_done 2 7 11) = Some 11"
    by (simp_all add: ex_done_def status_def)
  from lookup_order[of ex_tracker3 99 5000]
  have "\<forall>r. wf ex_tracker3 \<and> map_of (active ex_tracker3) 99 = Some r \<longrightarrow>
      status_for ex_tracker3 99 = ''running'' \<and>
      current_elapsed ex_tracker3 99 5000 = Some (max (5000 - create_time r) 0)"
    by (rule conjunct1[OF conjunct2])
  with wf_ex_tracker3 a have 1: "status_for ex_tracker3 99 = ''running''"
    "current_elapsed ex_tracker3 99 5000 = Some 4000"
    by (auto simp: v)
  from lookup_order[of ex_tracker3 7 5000]
  have "\<forall>xs h ys. map_of (active ex_tracker3) 7 = None \<and> completed ex_tracker3 = xs @ h # ys \<and>
      pid h = 7 \<and> (\<forall>x \<in> set xs. pid x \<noteq> 7) \<longrightarrow>
      status_for ex_tracker3 7 = status h \<and> current_elapsed ex_tracker3 7 5000 = actual_duration h"
    by (rule conjunct2[OF conjunct2[OF conjunct2]])
  with b c d have "status_for ex_tracker3 7 = status (ex_done 2 7 11) \<and>
      current_elapsed ex_tracker3 7 5000 = actual_duration (ex_done 2 7 11)"
    by blast
  then have 2: "status_for ex_tracker3 7 = ''completed''" "current_elapsed ex_tracker3 7 5000 = Some 11"
    by (simp_all only: e)
  show ?thesis using wf_ex_tracker3 a b c 1 2 by blast
qed

text \<open>
  C3. When \<^verbatim>\<open>update_running\<close> is called for a pid whose active record has a creation time
  more than 1.0 away from the given one, a fresh record is constructed (a new object, with
  the given name, creation time and prediction, \<open>first_seen = last_seen = now\<close> and no
  completion) and replaces the old one under the pid: the dict has exactly one entry for
  the pid and the same keys as before, and the history is untouched. The old record is
  dropped for good: after any further sequence of calls no record of the tracker, active
  or in the history, is that object, so no completion is ever recorded for it.
\<close>

theorem reuse_replaces_record:
  assumes "wf t" and "map_of (active t) p = Some r" and "\<bar>create_time r - ct\<bar> > 1"
  shows "fst (update_running t p nm ct pr now) =
           \<lparr>ident = next_ident t, pid = p, name = nm, create_time = ct, predicted = pr,
            first_seen = now, last_seen = now, actual_duration = None, completed_at = None\<rparr> \<and>
         map_of (active (snd (update_running t p nm ct pr now))) p =
           Some (fst (update_running t p nm ct pr now)) \<and>
         length (filter (\<lambda>e. fst e = p) (active (snd (update_running t p nm ct pr now)))) = 1 \<and>
         map fst (active (snd (update_running t p nm ct pr now))) = map fst (active t) \<and>
         completed (snd (update_running t p nm ct pr now)) = completed t \<and>
         (\<forall>cs. \<forall>x \<in> set (records (run cs (snd (update_running t p nm ct pr now)))).
            ident x \<noteq> ident r)"
proof -
  let ?r = "\<lparr>ident = next_ident t, pid = p, name = nm, create_time = ct, predicted = pr,
            first_seen = now, last_seen = now, actual_duration = None, completed_at = None\<rparr>"
  let ?t = "snd (update_running t p nm ct pr now)"
  have rin: "(p, r) \<in> set (active t)" using assms(2) by (rule map_of_SomeD)
  then have pin: "p \<in> set (map fst (active t))" by force
  have dk: "distinct (map fst (active t))" using assms(1) by (simp add: wf_def)
  have u: "update_running t p nm ct pr now =
      (?r, t\<lparr>active := AList.update p ?r (active t), next_ident := Suc (next_ident t)\<rparr>)"
    using assms(2,3) by (simp add: update_running_def replace_record_def Let_def)
  have 1: "fst (update_running t p nm ct pr now) = ?r" by (simp add: u)
  have 2: "map_of (active ?t) p = Some (fst (update_running t p nm ct pr now))"
    by (simp add: update_running_fields(5))
  have 4: "map fst (active ?t) = map fst (active t)"
    using pin by (simp add: update_running_fields(4))
  have w: "wf ?t" using assms(1) by (rule wf_update_running)
  have 3: "length (filter (\<lambda>e. fst e = p) (active ?t)) = 1"
  proof (rule count_key_one)
    show "distinct (map fst (active ?t))" using w by (simp add: wf_def)
    show "p \<in> fst ` set (active ?t)" by (simp add: update_running_fields(3))
  qed
  have 5: "completed ?t = completed t" by (rule update_running_fields(1))
  have b: "ident r < next_ident t"
    using wf_records_bound[OF assms(1), of r] rin by (force simp: records_def)
  then have b': "ident r < next_ident ?t" by (simp add: u)
  have inj: "inj_on (ident \<circ> snd) (set (active t))"
    using assms(1) by (simp add: wf_def records_def distinct_map)
  have a: "\<forall>x \<in> snd ` set (active ?t). ident x \<noteq> ident r"
  proof
    fix x assume "x \<in> snd ` set (active ?t)"
    then obtain q where "(q, x) \<in> set (AList.update p ?r (active t))" by (auto simp: u)
    then have "(q, x) = (p, ?r) \<or> ((q, x) \<in> set (active t) \<and> q \<noteq> p)"
      by (auto simp: set_update_distinct[OF dk])
    then show "ident x \<noteq> ident r"
    proof
      assume "(q, x) = (p, ?r)"
      then show ?thesis using b by simp
    next
      assume qx: "(q, x) \<in> set (active t) \<and> q \<noteq> p"
      show ?thesis
      proof
        assume "ident x = ident r"
        then have eq: "(ident \<circ> snd) (q, x) = (ident \<circ> snd) (p, r)" by simp
        have xin: "(q, x) \<in> set (active t)" using qx by simp
        have "(q, x) = (p, r)" by (rule inj_onD[OF inj eq xin rin])
        then show False using qx by simp
      qed
    qed
  qed
  have c: "\<forall>x \<in> set (completed ?t). ident x = ident r \<longrightarrow> x \<in> {}"
    using active_not_completed[OF assms(1,2)] by (simp add: 5)
  have 6: "\<forall>cs. \<forall>x \<in> set (records (run cs ?t)). ident x \<noteq> ident r"
  proof (intro allI ballI)
    fix cs x assume "x \<in> set (records (run cs ?t))"
    then show "ident x \<noteq> ident r"
      using ident_frozen_run[OF w b' a c, of cs] by (auto simp: records_def)
  qed
  show ?thesis using 1 2 3 4 5 6 by blast
qed

theorem reuse_replaces_record_witness:
  "wf ex_tracker2 \<and> map_of (active ex_tracker2) 7 = Some ex_rec7 \<and>
   \<bar>create_time ex_rec7 - 500\<bar> > 1 \<and>
   fst (update_running ex_tracker2 7 ''idle'' 500 3 1020) = ex_rec7_new \<and>
   active (snd (update_running ex_tracker2 7 ''idle'' 500 3 1020)) =
     [(99, ex_rec), (7, ex_rec7_new)] \<and>
   completed (snd (update_running ex_tracker2 7 ''idle'' 500 3 1020)) = [] \<and>
   list_all (\<lambda>x. ident x \<noteq> ident ex_rec7)
     (records (run [Reconcile [] (\<lambda>q. Gone) 1030]
        (snd (update_running ex_tracker2 7 ''idle'' 500 3 1020))))"
proof -
  have h: "map_of (active ex_tracker2) 7 = Some ex_rec7" by (simp add: ex_tracker2_def)
  have g: "\<bar>create_time ex_rec7 - 500\<bar> > 1" by (simp add: ex_rec7_def)
  note t = reuse_replaces_record[OF wf_ex_tracker2 h g, of "''idle''" 3 1020]
  have n: "next_ident ex_tracker2 = 2" "completed ex_tracker2 = []"
    by (simp_all add: ex_tracker2_def)
  from t have 1: "fst (update_running ex_tracker2 7 ''idle'' 500 3 1020) = ex_rec7_new"
    by (simp add: n ex_rec7_new_def)
  have 2: "active (snd (update_running ex_tracker2 7 ''idle'' 500 3 1020)) =
     [(99, ex_rec), (7, ex_rec7_new)]"
    by (simp add: update_running_def replace_record_def ex_tracker2_def ex_rec7_def
        ex_rec7_new_def Let_def)
  from t have 3: "completed (snd (update_running ex_tracker2 7 ''idle'' 500 3 1020)) = []"
    by (simp add: n)
  from t have "\<forall>cs. \<forall>x \<in> set (records (run cs
      (snd (update_running ex_tracker2 7 ''idle'' 500 3 1020)))). ident x \<noteq> ident ex_rec7"
    by blast
  then have 4: "list_all (\<lambda>x. ident x \<noteq> ident ex_rec7)
     (records (run [Reconcile [] (\<lambda>q. Gone) 1030]
        (snd (update_running ex_tracker2 7 ''idle'' 500 3 1020))))"
    by (simp only: list_all_iff) blast
  show ?thesis using wf_ex_tracker2 h g 1 2 3 4 by (intro conjI)
qed

text \<open>
  C5. In every state reachable from a new tracker, each record the tracker holds has
  \<open>actual_duration\<close> and \<open>completed_at\<close> both unset or both set. A record of the history
  is final: after any further sequence of calls (reconciliations and observations alike),
  a record of the tracker that is this object is equal to it in every field, is in the
  history and is not in the active set. (The deque may evict it; it never changes and
  never comes back.)
\<close>

theorem completion_terminal:
  assumes "tracker_init n = Inr t0"
  shows "(\<forall>x \<in> set (records (run cs t0)).
            (actual_duration x = None \<longleftrightarrow> completed_at x = None)) \<and>
         (\<forall>h \<in> set (completed (run cs t0)). \<forall>ds.
            \<forall>x \<in> set (records (run ds (run cs t0))). ident x = ident h \<longrightarrow>
              x = h \<and> x \<in> set (completed (run ds (run cs t0))) \<and>
              x \<notin> snd ` set (active (run ds (run cs t0))))"
proof -
  let ?t = "run cs t0"
  have w: "wf ?t" using wf_init[OF assms] by (rule wf_run)
  have 1: "\<forall>x \<in> set (records ?t). (actual_duration x = None \<longleftrightarrow> completed_at x = None)"
    using w by (auto simp: wf_def records_def)
  have 2: "x = h \<and> x \<in> set (completed (run ds ?t)) \<and> x \<notin> snd ` set (active (run ds ?t))"
    if h: "h \<in> set (completed ?t)" and x: "x \<in> set (records (run ds ?t))"
      and e: "ident x = ident h" for h ds x
  proof -
    have b: "ident h < next_ident ?t"
      using wf_records_bound[OF w, of h] h by (simp add: records_def)
    have a: "\<forall>y \<in> snd ` set (active ?t). ident y \<noteq> ident h"
      using wf_active_not_completed_set[OF w h] by blast
    have c: "\<forall>y \<in> set (completed ?t). ident y = ident h \<longrightarrow> y \<in> {h}"
      using wf_completed_inj[OF w h] by blast
    note f = ident_frozen_run[OF w b a c, of ds]
    from f e have na: "x \<notin> snd ` set (active (run ds ?t))" by blast
    with x have xc: "x \<in> set (completed (run ds ?t))" by (auto simp: records_def)
    with f e have "x = h" by blast
    then show ?thesis using na xc by simp
  qed
  show ?thesis using 1 2 by blast
qed

theorem completion_terminal_witness:
  "tracker_init 20 = Inr ex_new \<and>
   completed (run ex_calls ex_new) = [close_record 1010 ex_rec] \<and>
   completed (run ex_calls_later (run ex_calls ex_new)) =
     [close_record 1010 ex_rec, close_record 2010 ex_rec_later] \<and>
   list_all (\<lambda>x. ident x = ident (close_record 1010 ex_rec) \<longrightarrow> x = close_record 1010 ex_rec)
     (records (run ex_calls_later (run ex_calls ex_new))) \<and>
   list_all (\<lambda>x. actual_duration x = None \<longleftrightarrow> completed_at x = None)
     (records (run ex_calls ex_new))"
proof -
  note t = completion_terminal[OF ex_new_init, of ex_calls]
  have h: "close_record 1010 ex_rec \<in> set (completed (run ex_calls ex_new))"
    by (simp add: run_ex_calls)
  from t have 1: "\<forall>x \<in> set (records (run ex_calls ex_new)).
      (actual_duration x = None \<longleftrightarrow> completed_at x = None)"
    by (rule conjunct1)
  from t h have 2: "\<forall>x \<in> set (records (run ex_calls_later (run ex_calls ex_new))).
      ident x = ident (close_record 1010 ex_rec) \<longrightarrow> x = close_record 1010 ex_rec"
    by blast
  have 3: "list_all (\<lambda>x. ident x = ident (close_record 1010 ex_rec) \<longrightarrow>
      x = close_record 1010 ex_rec) (records (run ex_calls_later (run ex_calls ex_new)))"
    using 2 by (simp only: list_all_iff)
  have 4: "list_all (\<lambda>x. actual_duration x = None \<longleftrightarrow> completed_at x = None)
      (records (run ex_calls ex_new))"
    using 1 by (simp only: list_all_iff)
  have 5: "completed (run ex_calls ex_new) = [close_record 1010 ex_rec]"
    by (simp add: run_ex_calls)
  have 6: "completed (run ex_calls_later (run ex_calls ex_new)) =
     [close_record 1010 ex_rec, close_record 2010 ex_rec_later]"
    by (simp only: run_ex_calls_later tracker.simps)
  show ?thesis
    using ex_new_init 3 4 5 6 by (intro conjI)
qed

text \<open>
  C4, as amended. For every sequence of \<^verbatim>\<open>update_running\<close> calls for a pid whose active
  record is \<open>r\<close>, each with a creation time within 1.0 of the stored one, no second record
  is made: no object is constructed, the dict keeps its keys and has exactly one entry
  for the pid, the history is untouched, and the entry is the record \<open>r\<close> with only
  \<open>name\<close>, \<open>predicted\<close> and \<open>last_seen\<close> overwritten, so \<open>first_seen\<close> and
  \<open>create_time\<close> never change. After each call \<open>name\<close> and \<open>predicted\<close> are the
  arguments of that call and \<open>last_seen\<close> is the clock reading of that call: it advances
  strictly exactly when the clock reading is later than the stored \<open>last_seen\<close>.
\<close>

theorem repeated_observe_in_place:
  assumes "wf t" and "map_of (active t) p = Some r"
    and "\<forall>c \<in> set cs. same_identity p (create_time r) c"
  shows "(\<exists>nm pr ls. map_of (active (run cs t)) p =
            Some (r\<lparr>name := nm, predicted := pr, last_seen := ls\<rparr>)) \<and>
         map fst (active (run cs t)) = map fst (active t) \<and>
         length (filter (\<lambda>e. fst e = p) (active (run cs t))) = 1 \<and>
         completed (run cs t) = completed t \<and>
         next_ident (run cs t) = next_ident t \<and>
         (\<forall>ds nm ct pr now. cs = ds @ [Observe p nm ct pr now] \<longrightarrow>
            map_of (active (run cs t)) p =
              Some (r\<lparr>name := nm, predicted := pr, last_seen := now\<rparr>))"
proof -
  note s = same_identity_run[OF assms(2,3)]
  have w: "wf (run cs t)" using assms(1) by (rule wf_run)
  have pin: "p \<in> fst ` set (active (run cs t))"
  proof -
    from s obtain x where "map_of (active (run cs t)) p = Some x" by blast
    then have "(p, x) \<in> set (active (run cs t))" by (rule map_of_SomeD)
    then show ?thesis by force
  qed
  have 3: "length (filter (\<lambda>e. fst e = p) (active (run cs t))) = 1"
    using w pin by (intro count_key_one) (simp_all add: wf_def)
  have 6: "map_of (active (run cs t)) p = Some (r\<lparr>name := nm, predicted := pr, last_seen := now\<rparr>)"
    if cs: "cs = ds @ [Observe p nm ct pr now]" for ds nm ct pr now
  proof -
    have "\<forall>c \<in> set ds. same_identity p (create_time r) c" using assms(3) cs by simp
    from same_identity_run[OF assms(2) this]
    obtain nm' pr' ls' where
      a: "map_of (active (run ds t)) p = Some (r\<lparr>name := nm', predicted := pr', last_seen := ls'\<rparr>)"
      by blast
    have "same_identity p (create_time r) (Observe p nm ct pr now)" using assms(3) cs by simp
    then have near: "\<not> \<bar>create_time (r\<lparr>name := nm', predicted := pr', last_seen := ls'\<rparr>) - ct\<bar> > 1"
      by simp
    have "run cs t = step (run ds t) (Observe p nm ct pr now)"
      by (simp add: cs run_def)
    then show ?thesis
      using observe_same_step[OF a near, of nm pr now] by (simp add: update_conv')
  qed
  show ?thesis using s 3 6 by blast
qed

theorem repeated_observe_in_place_witness:
  "wf ex_tracker \<and> map_of (active ex_tracker) 99 = Some ex_rec \<and>
   list_all (same_identity 99 (create_time ex_rec)) ex_observes \<and>
   map_of (active (run ex_observes ex_tracker)) 99 =
     Some (ex_rec\<lparr>name := ''build3'', predicted := 14, last_seen := 1005\<rparr>) \<and>
   map fst (active (run ex_observes ex_tracker)) = [99] \<and>
   next_ident (run ex_observes ex_tracker) = 1"
proof -
  have h: "map_of (active ex_tracker) 99 = Some ex_rec" by (simp add: ex_tracker_def)
  have v: "create_time ex_rec = 1000" by (simp add: ex_rec_def)
  have i: "\<forall>c \<in> set ex_observes. same_identity 99 (create_time ex_rec) c"
    by (simp add: ex_observes_def v)
  note t = repeated_observe_in_place[OF wf_ex_tracker h i]
  have e: "ex_observes = [Observe 99 ''build2'' (2001 / 2) 13 1003] @
      [Observe 99 ''build3'' (1999 / 2) 14 1005]"
    by (simp add: ex_observes_def)
  from t have "\<forall>ds nm ct pr now. ex_observes = ds @ [Observe 99 nm ct pr now] \<longrightarrow>
      map_of (active (run ex_observes ex_tracker)) 99 =
        Some (ex_rec\<lparr>name := nm, predicted := pr, last_seen := now\<rparr>)"
    by blast
  with e have 1: "map_of (active (run ex_observes ex_tracker)) 99 =
     Some (ex_rec\<lparr>name := ''build3'', predicted := 14, last_seen := 1005\<rparr>)"
    by blast
  from t have 2: "map fst (active (run ex_observes ex_tracker)) = [99]"
    "next_ident (run ex_observes ex_tracker) = 1"
    by (simp_all add: ex_tracker_def)
  have 3: "list_all (same_identity 99 (create_time ex_rec)) ex_observes"
    using i by (simp only: list_all_iff)
  show ?thesis using wf_ex_tracker h 1 2 3 by (intro conjI)
qed

text \<open>
  C4 as stated says that \<open>last_seen\<close> strictly advances across the calls. Two calls that
  read the same clock value (1001 here, for the first observation of pid 99 on a new
  tracker and for the next one) leave \<open>last_seen\<close> where it was.
\<close>

theorem observe_last_seen_counterexample:
  "tracker_init 20 = Inr ex_new \<and>
   step ex_new (Observe 99 ''build'' 1000 (25 / 2) 1001) = ex_tracker \<and>
   map_of (active ex_tracker) 99 = Some ex_rec \<and>
   same_identity 99 (create_time ex_rec) (Observe 99 ''build'' 1000 (25 / 2) 1001) \<and>
   map_of (active (step ex_tracker (Observe 99 ''build'' 1000 (25 / 2) 1001))) 99 = Some ex_rec \<and>
   \<not> last_seen ex_rec < last_seen (fst (update_running ex_tracker 99 ''build'' 1000 (25 / 2) 1001))"
  by (simp add: ex_new_init ex_new_def ex_tracker_def ex_rec_def update_running_def
      replace_record_def Let_def)

text \<open>
  C6, as amended. The history is bounded and evicted first-in first-out. On a tracker
  constructed with capacity \<open>N\<close> and driven by any sequence of calls, the history is at
  every moment the last \<open>N\<close> entries of the log of all records closed so far, in the
  order they were closed, and its length is the smaller of \<open>N\<close> and the length of the
  log: records enter at the new end only and leave at the old end only. After \<open>N + k\<close>
  completions the history has length \<open>N\<close> and holds exactly the \<open>N\<close> most recent ones,
  the \<open>k\<close> oldest having been evicted.
\<close>

theorem history_bounded_fifo:
  assumes "tracker_init (int N) = Inr t0" and "length (closed_log cs t0) = N + k"
  shows "length (completed (run cs t0)) = N \<and>
         completed (run cs t0) = drop k (closed_log cs t0) \<and>
         (\<forall>ds. completed (run ds t0) =
            drop (length (closed_log ds t0) - N) (closed_log ds t0)) \<and>
         (\<forall>ds. length (completed (run ds t0)) = min N (length (closed_log ds t0)))"
proof -
  have w: "wf t0" using assms(1) by (rule wf_init)
  have e: "completed t0 = []" "maxlen t0 = N"
    using assms(1) by (auto simp: tracker_init_def split: if_splits)
  have 3: "completed (run ds t0) = drop (length (closed_log ds t0) - N) (closed_log ds t0)" for ds
    using run_completed[OF w, of ds] by (simp add: e)
  have 4: "length (completed (run ds t0)) = min N (length (closed_log ds t0))" for ds
    by (simp add: 3)
  have 2: "completed (run cs t0) = drop k (closed_log cs t0)"
    using assms(2) by (simp add: 3)
  have 1: "length (completed (run cs t0)) = N"
    using assms(2) by (simp add: 4)
  show ?thesis using 1 2 3 4 by blast
qed

theorem history_bounded_fifo_witness:
  "tracker_init (int 2) = Inr ex_new2 \<and>
   length (closed_log ex_three ex_new2) = 2 + 1 \<and>
   length (completed (run ex_three ex_new2)) = 2 \<and>
   completed (run ex_three ex_new2) = [ex_closed 1 2 ''b'' 20, ex_closed 2 3 ''c'' 30] \<and>
   closed_log ex_three ex_new2 =
     [ex_closed 0 1 ''a'' 10, ex_closed 1 2 ''b'' 20, ex_closed 2 3 ''c'' 30]"
proof -
  have l: "length (closed_log ex_three ex_new2) = 2 + 1" by (simp add: log_ex_three)
  note t = history_bounded_fifo[OF ex_new2_init l]
  from t have 1: "length (completed (run ex_three ex_new2)) = 2" by (rule conjunct1)
  from t have "completed (run ex_three ex_new2) = drop 1 (closed_log ex_three ex_new2)"
    by (rule conjunct1[OF conjunct2])
  then have 2: "completed (run ex_three ex_new2) =
      [ex_closed 1 2 ''b'' 20, ex_closed 2 3 ''c'' 30]"
    by (simp add: log_ex_three)
  show ?thesis using ex_new2_init l 1 2 log_ex_three by (intro conjI)
qed

text \<open>
  C6 as stated says that after \<open>N + k\<close> completions the history holds exactly the \<open>k\<close>
  most recent completions. With \<open>N = 2\<close> and three completions (\<open>k = 1\<close>) the history
  holds the last two, not the last one.
\<close>

theorem history_k_most_recent_counterexample:
  "tracker_init 2 = Inr ex_new2 \<and>
   length (closed_log ex_three ex_new2) = 2 + 1 \<and>
   length (completed (run ex_three ex_new2)) = 2 \<and>
   completed (run ex_three ex_new2) \<noteq> drop 2 (closed_log ex_three ex_new2)"
  using ex_new2_init by (simp add: run_ex_three log_ex_three)

text \<open>
  C8 as stated says that the history is unchanged except for the records closed in the
  call. On a tracker of capacity 2 whose history is full, a \<^verbatim>\<open>mark_missing\<close> that closes
  one record also evicts the oldest history entry, a record that was closed two calls
  earlier: the new history is not the old one with the closed record added.
\<close>

theorem reconcile_frame_counterexample:
  "tracker_init 2 = Inr ex_new2 \<and>
   completed (run ex_four ex_new2) = [ex_closed 1 2 ''b'' 20, ex_closed 2 3 ''c'' 30] \<and>
   closed_now (run ex_four ex_new2) [] (\<lambda>q. Gone) 45 = [ex_closed 3 4 ''d'' 40] \<and>
   completed (mark_missing (run ex_four ex_new2) [] (\<lambda>q. Gone) 45) =
     [ex_closed 2 3 ''c'' 30, ex_closed 3 4 ''d'' 40] \<and>
   completed (mark_missing (run ex_four ex_new2) [] (\<lambda>q. Gone) 45) \<noteq>
     completed (run ex_four ex_new2) @ closed_now (run ex_four ex_new2) [] (\<lambda>q. Gone) 45"
  using ex_new2_init unfolding run_ex_four
  by (simp add: mark_missing_def mark_missing_step_def should_close_def deque_append_def
      close_record_def closed_now_def closes_def ex_closed_def)

end
